theory Spec2Isabelle
  imports Main
begin

section \<open>JavaScript values used by article.js\<close>

text \<open>
  The model follows \<^verbatim>\<open>src/article.js\<close>. A JavaScript exception is a value: a method
  that can throw returns the error together with the state the article is left in, since
  the article object is mutated in place and survives the exception.

  \<^item> \<open>TypeError\<close> is what the JavaScript runtime raises when a property of \<open>undefined\<close> is
    read, when \<open>undefined\<close> is called as a method or used as a constructor.
  \<^item> \<open>IndexOutOfRange\<close> and \<open>NotFound\<close> are the errors of the Section operations, which
    are not part of article.js and are described by the specification only.
\<close>

datatype error = TypeError | IndexOutOfRange | NotFound

text \<open>\<^verbatim>\<open>xs[i]\<close>: \<open>None\<close> is JavaScript's \<open>undefined\<close>, the value of an index out of range.\<close>

definition js_nth :: "'a list \<Rightarrow> int \<Rightarrow> 'a option" where
  "js_nth xs i = (if 0 \<le> i \<and> i < int (length xs) then Some (xs ! nat i) else None)"

text \<open>
  \<^verbatim>\<open>xs.splice(start, deleteCount)\<close> of the language standard, deleting only: a negative
  \<open>start\<close> counts from the end, and both arguments are clamped to the array.
\<close>

definition js_splice :: "'a list \<Rightarrow> int \<Rightarrow> int \<Rightarrow> 'a list" where
  "js_splice xs start deleteCount =
     (let len = int (length xs);
          s = (if start < 0 then max (len + start) 0 else min start len);
          d = min (max deleteCount 0) (len - s)
      in take (nat s) xs @ drop (nat (s + d)) xs)"

section \<open>Operations, transactions\<close>

text \<open>
  An action spec is the object \<^verbatim>\<open>operation[action]\<close>; every property but \<open>op\<close> may be
  absent (\<open>None\<close>). Formatting ranges are triples (kind, from, to); attributes are
  property lists.
\<close>

type_synonym formatting = "(string \<times> int \<times> int) list"

type_synonym js_object = "(string \<times> string option) list"

record action_spec =
  op :: string
  component :: "string option"
  "section" :: "string option"
  "value" :: "string option"
  index :: "int option"
  count :: "int option"
  formats :: "formatting option"
  cursorOffset :: "int option"
  selectRange :: "int option"
  componentClass :: "string option"
  attrs :: "js_object option"

text \<open>An operation is \<^verbatim>\<open>{do: ActionSpec, undo: ActionSpec}\<close>; the action is the key.\<close>

record operation =
  op_do :: action_spec
  op_undo :: action_spec

datatype action = Do | Undo

fun spec_of :: "operation \<Rightarrow> action \<Rightarrow> action_spec" where
  "spec_of operation Do = op_do operation"
| "spec_of operation Undo = op_undo operation"

type_synonym transaction = "operation list"

section \<open>Collaborators of article.js\<close>

text \<open>
  The component classes (Paragraph, Figure, YouTubeComponent, GiphyComponent) are not
  part of article.js. A component is a value of a type \<open>'c\<close>, and what article.js calls
  on components is a parameter of the model: the record \<open>'c env\<close>. A method
  returns the component as the call leaves it, or the error it throws.
\<close>

datatype component_class = Paragraph | Figure | YouTubeComponent | GiphyComponent

record 'c env =
  c_name :: "'c \<Rightarrow> string"
  insertCharactersAt :: "string option \<Rightarrow> int option \<Rightarrow> 'c \<Rightarrow> error + 'c"
  removeCharactersAt :: "int option \<Rightarrow> int option \<Rightarrow> 'c \<Rightarrow> error + 'c"
  setText :: "string \<Rightarrow> 'c \<Rightarrow> error + 'c"
  applyFormats :: "formatting \<Rightarrow> 'c \<Rightarrow> error + 'c"
  construct :: "component_class \<Rightarrow> js_object option \<Rightarrow> 'c"

text \<open>
  A section object: \<open>ident\<close> is the object's identity (what \<^verbatim>\<open>indexOf\<close> compares),
  \<open>name\<close> and \<open>components\<close> are the properties article.js reads. Sections and
  components are owned exclusively (specification, section 3), so a component of the
  document is identified by its position: the index of its section and its index there.
\<close>

record 'c "section" =
  ident :: nat
  name :: string
  components :: "'c list"

type_synonym cref = "nat \<times> nat"

text \<open>
  Modelled from the spec: Section.insertComponentAt (section.js is absent):
  "inserts, fails with IndexOutOfRange if index not in [0, length]".
\<close>

definition Section_insertComponentAt :: "'c \<Rightarrow> int option \<Rightarrow> 'c section \<Rightarrow> error + 'c section" where
  "Section_insertComponentAt c idx s =
     (case idx of
        None \<Rightarrow> Inl IndexOutOfRange
      | Some i \<Rightarrow>
          if 0 \<le> i \<and> i \<le> int (length (components s))
          then Inr (s\<lparr>components := take (nat i) (components s) @ [c] @ drop (nat i) (components s)\<rparr>)
          else Inl IndexOutOfRange)"

text \<open>
  Modelled from the spec: Section.removeComponent (section.js is absent):
  "removes by identity, fails with NotFound if absent". The identity of a component is
  its index \<open>j\<close> in the section.
\<close>

definition Section_removeComponent :: "nat \<Rightarrow> 'c section \<Rightarrow> error + 'c section" where
  "Section_removeComponent j s =
     (if j < length (components s)
      then Inr (s\<lparr>components := take j (components s) @ drop (Suc j) (components s)\<rparr>)
      else Inl NotFound)"

text \<open>
  Modelled from the spec: Utils.extend (utils.js is absent); article.js uses it to
  "override default params with passed ones if any".
\<close>

fun Utils_extend :: "js_object \<Rightarrow> js_object \<Rightarrow> js_object" where
  "Utils_extend defaults [] = defaults"
| "Utils_extend defaults ((k, v) # passed) =
     Utils_extend (if k \<in> fst ` set defaults
             then map (\<lambda>(k', v'). if k' = k then (k', v) else (k', v')) defaults
             else defaults @ [(k, v)]) passed"

text \<open>
  Modelled from the spec: the Selection service (selection.js is absent) receives
  \<^verbatim>\<open>setCursor({component, offset})\<close> and \<^verbatim>\<open>select(from, to)\<close>; the model keeps the calls it
  received, in order. The component of a point is \<open>None\<close> when article.js passes
  \<open>undefined\<close>.
\<close>

type_synonym point = "cref option \<times> int"

datatype sel_call = SetCursor point | Select point point

section \<open>The article\<close>

record 'c article =
  sections :: "'c section list"
  history :: "transaction list"
  historyAt :: int
  selection :: "sel_call list"

text \<open>What a method leaves behind: it returns, or it throws; the article is there in both.\<close>

datatype 'c outcome = Returned "'c article" | Threw error "'c article"

fun after :: "'c outcome \<Rightarrow> 'c article" where
  "after (Returned a) = a"
| "after (Threw e a) = a"

fun returned :: "'c outcome \<Rightarrow> bool" where
  "returned (Returned a) = True"
| "returned (Threw e a) = False"

fun and_then :: "'c outcome \<Rightarrow> ('c article \<Rightarrow> 'c outcome) \<Rightarrow> 'c outcome" where
  "and_then (Returned a) f = f a"
| "and_then (Threw e a) f = Threw e a"

subsection \<open>insertSection, removeSection, the constructor\<close>

text \<open>
  \<^verbatim>\<open>Article.prototype.insertSection\<close>: a section without components gets a new Paragraph
  at index 0, then the section is pushed and returned. The DOM is not modelled.
\<close>

definition insertSection :: "'c env \<Rightarrow> 'c section \<Rightarrow> 'c article \<Rightarrow> error + ('c section \<times> 'c article)" where
  "insertSection env s a =
     (if components s = []
      then (case Section_insertComponentAt (construct env Paragraph None) (Some 0) s of
              Inl e \<Rightarrow> Inl e
            | Inr s' \<Rightarrow> Inr (s', a\<lparr>sections := sections a @ [s']\<rparr>))
      else Inr (s, a\<lparr>sections := sections a @ [s]\<rparr>))"

text \<open>\<^verbatim>\<open>this.sections.indexOf(section)\<close>: the first index holding that object, or -1.\<close>

fun indexOf :: "'c section list \<Rightarrow> 'c section \<Rightarrow> int" where
  "indexOf [] s = - 1"
| "indexOf (x # xs) s =
     (if ident x = ident s then 0
      else (let i = indexOf xs s in if i < 0 then - 1 else i + 1))"

text \<open>\<^verbatim>\<open>Article.prototype.removeSection\<close>: no test of the index before the splice.\<close>

definition removeSection :: "'c section \<Rightarrow> 'c article \<Rightarrow> 'c section \<times> 'c article" where
  "removeSection s a =
     (let idx = indexOf (sections a) s
      in (s, a\<lparr>sections := js_splice (sections a) idx 1\<rparr>))"

text \<open>
  The constructor: the sections of the parameters are inserted one by one, then the
  history is created empty with the cursor at 0. \<open>sel\<close> is the state of the Selection
  singleton when the article is built.
\<close>

fun insertSections :: "'c env \<Rightarrow> 'c section list \<Rightarrow> 'c article \<Rightarrow> error + 'c article" where
  "insertSections env [] a = Inr a"
| "insertSections env (s # ss) a =
     (case insertSection env s a of
        Inl e \<Rightarrow> Inl e
      | Inr (s', a') \<Rightarrow> insertSections env ss a')"

definition Article :: "'c env \<Rightarrow> 'c section list \<Rightarrow> sel_call list \<Rightarrow> error + 'c article" where
  "Article env params_sections sel =
     (case insertSections env params_sections
             \<lparr>sections = [], history = [], historyAt = 0, selection = sel\<rparr> of
        Inl e \<Rightarrow> Inl e
      | Inr a \<Rightarrow> Inr (a\<lparr>history := [], historyAt := 0\<rparr>))"

subsection \<open>Lookup by name\<close>

text \<open>
  \<^verbatim>\<open>getSectionByName\<close> and \<^verbatim>\<open>getComponentByName\<close> scan in order and return the first
  object whose name is strictly equal to the argument; when the loops end the functions
  return nothing, which is \<open>undefined\<close> (\<open>None\<close>). The argument is a property of an action
  spec, so it may be \<open>undefined\<close> itself, and then it equals no name.
\<close>

fun find_section :: "'c section list \<Rightarrow> string option \<Rightarrow> nat option" where
  "find_section [] n = None"
| "find_section (s # ss) n =
     (if Some (name s) = n then Some 0 else map_option Suc (find_section ss n))"

definition getSectionByName :: "'c article \<Rightarrow> string option \<Rightarrow> nat option" where
  "getSectionByName a n = find_section (sections a) n"

fun find_component :: "'c env \<Rightarrow> 'c list \<Rightarrow> string option \<Rightarrow> nat option" where
  "find_component env [] n = None"
| "find_component env (c # cs) n =
     (if Some (c_name env c) = n then Some 0 else map_option Suc (find_component env cs n))"

fun find_in_sections :: "'c env \<Rightarrow> 'c section list \<Rightarrow> string option \<Rightarrow> cref option" where
  "find_in_sections env [] n = None"
| "find_in_sections env (s # ss) n =
     (case find_component env (components s) n of
        Some j \<Rightarrow> Some (0, j)
      | None \<Rightarrow> map_option (\<lambda>(i, j). (Suc i, j)) (find_in_sections env ss n))"

definition getComponentByName :: "'c env \<Rightarrow> 'c article \<Rightarrow> string option \<Rightarrow> cref option" where
  "getComponentByName env a n = find_in_sections env (sections a) n"

text \<open>\<^verbatim>\<open>getComponentClassByName\<close>: a switch with four cases and no default.\<close>

definition getComponentClassByName :: "string option \<Rightarrow> component_class option" where
  "getComponentClassByName n =
     (if n = Some ''Paragraph'' then Some Paragraph
      else if n = Some ''Figure'' then Some Figure
      else if n = Some ''YouTubeComponent'' then Some YouTubeComponent
      else if n = Some ''GiphyComponent'' then Some GiphyComponent
      else None)"

subsection \<open>exec\<close>

text \<open>
  The component at a position, and the article with that component replaced. exec takes
  positions from a lookup in the same sections, so they are in range.
\<close>

definition component_at :: "'c article \<Rightarrow> cref \<Rightarrow> 'c" where
  "component_at a p = components (sections a ! fst p) ! snd p"

definition set_component :: "'c article \<Rightarrow> cref \<Rightarrow> 'c \<Rightarrow> 'c article" where
  "set_component a p c =
     a\<lparr>sections := (sections a)
          [fst p := (sections a ! fst p)
             \<lparr>components := (components (sections a ! fst p))[snd p := c]\<rparr>]\<rparr>"

text \<open>
  \<^verbatim>\<open>component.m(...)\<close> where \<open>component\<close> is the result of a lookup: a TypeError when the
  lookup returned \<open>undefined\<close>, else the method runs on the component found.
\<close>

definition call_method :: "('c \<Rightarrow> error + 'c) \<Rightarrow> cref option \<Rightarrow> 'c article \<Rightarrow> 'c outcome" where
  "call_method m target a =
     (case target of
        None \<Rightarrow> Threw TypeError a
      | Some p \<Rightarrow>
          (case m (component_at a p) of
             Inl e \<Rightarrow> Threw e a
           | Inr c' \<Rightarrow> Returned (set_component a p c')))"

definition setCursor :: "point \<Rightarrow> 'c article \<Rightarrow> 'c article" where
  "setCursor p a = a\<lparr>selection := selection a @ [SetCursor p]\<rparr>"

definition select :: "point \<Rightarrow> point \<Rightarrow> 'c article \<Rightarrow> 'c article" where
  "select p q a = a\<lparr>selection := selection a @ [Select p q]\<rparr>"

text \<open>
  \<^verbatim>\<open>if (operation[action].cursorOffset) selection.setCursor(...)\<close>: the offset is truthy
  when it is a number other than 0.
\<close>

definition cursor_if_truthy :: "action_spec \<Rightarrow> cref option \<Rightarrow> 'c article \<Rightarrow> 'c article" where
  "cursor_if_truthy spec target a =
     (case cursorOffset spec of
        None \<Rightarrow> a
      | Some off \<Rightarrow> if off \<noteq> 0 then setCursor (target, off) a else a)"

text \<open>
  The selection part of the updateComponent branch: \<^verbatim>\<open>cursorOffset !== undefined\<close>, then
  \<^verbatim>\<open>!selectRange\<close> (absent or 0) chooses between \<open>setCursor\<close> and \<open>select\<close>.
\<close>

definition update_selection :: "action_spec \<Rightarrow> cref option \<Rightarrow> 'c article \<Rightarrow> 'c article" where
  "update_selection spec target a =
     (case cursorOffset spec of
        None \<Rightarrow> a
      | Some off \<Rightarrow>
          (case selectRange spec of
             None \<Rightarrow> setCursor (target, off) a
           | Some r \<Rightarrow>
               if r = 0 then setCursor (target, off) a
               else select (target, off) (target, off + r) a))"

text \<open>
  \<^verbatim>\<open>Article.prototype.exec\<close>: the chain of tests on \<open>op\<close>, in the order of the source; an
  \<open>op\<close> that is none of the five does nothing.
\<close>

definition exec :: "'c env \<Rightarrow> operation \<Rightarrow> action \<Rightarrow> 'c article \<Rightarrow> 'c outcome" where
  "exec env operation action a =
     (let spec = spec_of operation action in
      if op spec = ''insertChars'' then
        (let target = getComponentByName env a (component spec) in
         and_then (call_method (insertCharactersAt env (value spec) (index spec)) target a)
           (\<lambda>a'. Returned (cursor_if_truthy spec target a')))
      else if op spec = ''removeChars'' then
        (let target = getComponentByName env a (component spec) in
         and_then (call_method (removeCharactersAt env (index spec) (count spec)) target a)
           (\<lambda>a'. Returned (cursor_if_truthy spec target a')))
      else if op spec = ''updateComponent'' then
        (let target = getComponentByName env a (component spec) in
         and_then
           (case value spec of
              None \<Rightarrow> Returned a
            | Some v \<Rightarrow> call_method (setText env v) target a)
           (\<lambda>a1. and_then
              (case formats spec of
                 None \<Rightarrow> Returned a1
               | Some fs \<Rightarrow> call_method (applyFormats env fs) target a1)
              (\<lambda>a2. Returned (update_selection spec target a2))))
      else if op spec = ''deleteComponent'' then
        (case getComponentByName env a (component spec) of
           None \<Rightarrow> Threw TypeError a
         | Some (i, j) \<Rightarrow>
             (case Section_removeComponent j (sections a ! i) of
                Inl e \<Rightarrow> Threw e a
              | Inr s' \<Rightarrow> Returned (a\<lparr>sections := (sections a)[i := s']\<rparr>)))
      else if op spec = ''insertComponent'' then
        (let sec = getSectionByName a (section spec);
             options = Utils_extend [(''name'', component spec)]
                         (case attrs spec of None \<Rightarrow> [] | Some at \<Rightarrow> at)
         in case getComponentClassByName (componentClass spec) of
              None \<Rightarrow> Threw TypeError a
            | Some cls \<Rightarrow>
                (let c = construct env cls (Some options) in
                 case sec of
                   None \<Rightarrow> Threw TypeError a
                 | Some i \<Rightarrow>
                     (case Section_insertComponentAt c (index spec) (sections a ! i) of
                        Inl e \<Rightarrow> Threw e a
                      | Inr s' \<Rightarrow> Returned (a\<lparr>sections := (sections a)[i := s']\<rparr>))))
      else Returned a)"

subsection \<open>The history: do, transaction, redo, undo\<close>

text \<open>
  The loop of \<^verbatim>\<open>do\<close>: \<^verbatim>\<open>for (var i = 0; i < ops.length; i++) this.exec(ops[i], 'do')\<close>.
  An exception leaves the loop at once.
\<close>

function do_loop :: "'c env \<Rightarrow> transaction \<Rightarrow> nat \<Rightarrow> 'c article \<Rightarrow> 'c outcome" where
  "do_loop env ops i a =
     (if i < length ops
      then and_then (exec env (ops ! i) Do a) (do_loop env ops (i + 1))
      else Returned a)"
  by pat_completeness auto
termination
  by (relation "measure (\<lambda>(env, ops, i, a). length ops - i)") auto

text \<open>
  \<^verbatim>\<open>Article.prototype.do\<close>: \<^verbatim>\<open>var ops = this.history[this.historyAt++]\<close> reads the entry
  and increments the cursor before anything is executed; \<^verbatim>\<open>ops.length\<close> of an absent
  entry is a TypeError.
\<close>

definition "do" :: "'c env \<Rightarrow> 'c article \<Rightarrow> 'c outcome" where
  "do env a =
     (let ops = js_nth (history a) (historyAt a);
          a' = a\<lparr>historyAt := historyAt a + 1\<rparr>
      in case ops of
           None \<Rightarrow> Threw TypeError a'
         | Some ops \<Rightarrow> do_loop env ops 0 a')"

text \<open>\<^verbatim>\<open>Article.prototype.transaction\<close>: splice under the guard, push, do.\<close>

definition transaction :: "'c env \<Rightarrow> transaction \<Rightarrow> 'c article \<Rightarrow> 'c outcome" where
  "transaction env ops a =
     (let h = (if historyAt a < int (length (history a))
               then js_splice (history a) (historyAt a) (int (length (history a)) - historyAt a)
               else history a)
      in do env (a\<lparr>history := h @ [ops]\<rparr>))"

text \<open>\<^verbatim>\<open>Article.prototype.redo\<close>.\<close>

definition redo :: "'c env \<Rightarrow> 'c article \<Rightarrow> 'c outcome" where
  "redo env a =
     (if historyAt a < int (length (history a)) then do env a else Returned a)"

text \<open>
  The loop of \<^verbatim>\<open>undo\<close>: \<^verbatim>\<open>for (var i = ops.length - 1; i >= 0; i--) this.exec(ops[i], 'undo')\<close>.
\<close>

function undo_loop :: "'c env \<Rightarrow> transaction \<Rightarrow> int \<Rightarrow> 'c article \<Rightarrow> 'c outcome" where
  "undo_loop env ops i a =
     (if i \<ge> 0
      then (case js_nth ops i of
              None \<Rightarrow> Threw TypeError a
            | Some operation \<Rightarrow> and_then (exec env operation Undo a) (undo_loop env ops (i - 1)))
      else Returned a)"
  by pat_completeness auto
termination
  by (relation "measure (\<lambda>(env, ops, i, a). nat (i + 1))") auto

text \<open>
  \<^verbatim>\<open>Article.prototype.undo\<close>: \<^verbatim>\<open>var ops = this.history[--this.historyAt]\<close> decrements the
  cursor, then reads the entry.
\<close>

definition undo :: "'c env \<Rightarrow> 'c article \<Rightarrow> 'c outcome" where
  "undo env a =
     (if historyAt a > 0
      then (let a' = a\<lparr>historyAt := historyAt a - 1\<rparr>
            in case js_nth (history a') (historyAt a') of
                 None \<Rightarrow> Threw TypeError a'
               | Some ops \<Rightarrow> undo_loop env ops (int (length ops) - 1) a')
      else Returned a)"

section \<open>Notions used to state the properties\<close>

text \<open>
  Executing the specs of a list of operations one after the other, in the order of the
  list, for one action; the first exception ends the run. This is the wording of the
  specification ("execute every operation's spec in array order"), against which the
  index loops of \<open>do\<close> and \<open>undo\<close> are compared.
\<close>

fun exec_all :: "'c env \<Rightarrow> action \<Rightarrow> operation list \<Rightarrow> 'c article \<Rightarrow> 'c outcome" where
  "exec_all env act [] a = Returned a"
| "exec_all env act (operation # ops) a = and_then (exec env operation act a) (exec_all env act ops)"

text \<open>Two outcomes of the same kind (and error) that leave the same sections.\<close>

fun same_outcome :: "'c outcome \<Rightarrow> 'c outcome \<Rightarrow> bool" where
  "same_outcome (Returned a) (Returned b) = (sections a = sections b)"
| "same_outcome (Threw e a) (Threw e' b) = (e = e' \<and> sections a = sections b)"
| "same_outcome (Returned a) (Threw e' b) = False"
| "same_outcome (Threw e a) (Returned b) = False"

text \<open>Submitting a sequence of transactions; undoing and redoing \<open>n\<close> times.\<close>

fun transactions :: "'c env \<Rightarrow> transaction list \<Rightarrow> 'c article \<Rightarrow> 'c outcome" where
  "transactions env [] a = Returned a"
| "transactions env (ops # rest) a = and_then (transaction env ops a) (transactions env rest)"

fun undos :: "'c env \<Rightarrow> nat \<Rightarrow> 'c article \<Rightarrow> 'c outcome" where
  "undos env 0 a = Returned a"
| "undos env (Suc n) a = and_then (undo env a) (undos env n)"

fun redos :: "'c env \<Rightarrow> nat \<Rightarrow> 'c article \<Rightarrow> 'c outcome" where
  "redos env 0 a = Returned a"
| "redos env (Suc n) a = and_then (redo env a) (redos env n)"

text \<open>
  The undo specs of a sequence of transactions are true inverses along the run from \<open>a\<close>:
  each transaction, submitted in turn, returns, and an undo right after it returns and
  gives back the sections the transaction was applied to.
\<close>

fun inverses_hold :: "'c env \<Rightarrow> transaction list \<Rightarrow> 'c article \<Rightarrow> bool" where
  "inverses_hold env [] a = True"
| "inverses_hold env (ops # rest) a =
     (case transaction env ops a of
        Threw e a' \<Rightarrow> False
      | Returned a1 \<Rightarrow>
          (case undo env a1 of
             Threw e a' \<Rightarrow> False
           | Returned a0 \<Rightarrow> sections a0 = sections a \<and> inverses_hold env rest a1))"

text \<open>The entries of the history from the cursor on: the ones redo() can replay.\<close>

definition redoable :: "'c article \<Rightarrow> transaction list" where
  "redoable a = drop (nat (historyAt a)) (history a)"

text \<open>
  The states an editing session reaches: a freshly constructed article, then any calls of
  \<open>transaction\<close>, \<open>undo\<close> and \<open>redo\<close>. A call that throws leaves a state too.
\<close>

inductive reachable :: "'c env \<Rightarrow> 'c article \<Rightarrow> bool" for env :: "'c env" where
  fresh: "Article env params_sections sel = Inr a \<Longrightarrow> reachable env a"
| by_transaction: "reachable env a \<Longrightarrow> reachable env (after (transaction env ops a))"
| by_undo: "reachable env a \<Longrightarrow> reachable env (after (undo env a))"
| by_redo: "reachable env a \<Longrightarrow> reachable env (after (redo env a))"

text \<open>
  The states an editing session reaches from the article \<open>a0\<close> when every transaction it
  submits returns and carries true inverses (an undo right after it returns and gives
  back the sections the transaction was applied to), with any calls of \<open>undo\<close> and
  \<open>redo\<close> in between.
\<close>

inductive sound_run :: "'c env \<Rightarrow> 'c article \<Rightarrow> 'c article \<Rightarrow> bool"
  for env :: "'c env" and a0 :: "'c article" where
  start: "sound_run env a0 a0"
| sound_transaction:
    "sound_run env a0 a \<Longrightarrow> transaction env ops a = Returned a1 \<Longrightarrow>
     undo env a1 = Returned a' \<Longrightarrow> sections a' = sections a \<Longrightarrow> sound_run env a0 a1"
| sound_undo: "sound_run env a0 a \<Longrightarrow> sound_run env a0 (after (undo env a))"
| sound_redo: "sound_run env a0 a \<Longrightarrow> sound_run env a0 (after (redo env a))"

section \<open>A component variant, for concrete inputs\<close>

text \<open>
  Modelled from the spec: a component variant (paragraph.js and the other component
  files are absent): a named component of a class with a text buffer and formatting
  ranges. insertChars "insert character run at index", removeChars "remove count
  characters at index", updateComponent "replace its text" and "apply formatting
  ranges"; the constructor takes the name from the options. The theorems below hold for
  every \<open>env\<close>; this one instantiates them.
\<close>

record text_component =
  tc_name :: string
  tc_class :: component_class
  tc_text :: string
  tc_formats :: formatting

definition text_insert :: "string option \<Rightarrow> int option \<Rightarrow> text_component \<Rightarrow> error + text_component" where
  "text_insert v i c =
     (case v of
        None \<Rightarrow> Inl TypeError
      | Some chars \<Rightarrow>
          (case i of
             None \<Rightarrow> Inl TypeError
           | Some k \<Rightarrow> Inr (c\<lparr>tc_text := take (nat k) (tc_text c) @ chars @ drop (nat k) (tc_text c)\<rparr>)))"

definition text_remove :: "int option \<Rightarrow> int option \<Rightarrow> text_component \<Rightarrow> error + text_component" where
  "text_remove i n c =
     (case i of
        None \<Rightarrow> Inl TypeError
      | Some k \<Rightarrow>
          (case n of
             None \<Rightarrow> Inl TypeError
           | Some m \<Rightarrow> Inr (c\<lparr>tc_text := take (nat k) (tc_text c) @ drop (nat k + nat m) (tc_text c)\<rparr>)))"

definition text_new :: "component_class \<Rightarrow> js_object option \<Rightarrow> text_component" where
  "text_new cls options =
     \<lparr>tc_name = (case options of
                   None \<Rightarrow> []
                 | Some props \<Rightarrow> (case map_of props ''name'' of Some (Some n) \<Rightarrow> n | _ \<Rightarrow> [])),
      tc_class = cls, tc_text = [], tc_formats = []\<rparr>"

definition text_env :: "text_component env" where
  "text_env =
     \<lparr>c_name = tc_name,
      insertCharactersAt = text_insert,
      removeCharactersAt = text_remove,
      setText = (\<lambda>v c. Inr (c\<lparr>tc_text := v\<rparr>)),
      applyFormats = (\<lambda>fs c. Inr (c\<lparr>tc_formats := tc_formats c @ fs\<rparr>)),
      construct = text_new\<rparr>"

text \<open>Concrete inputs: action specs, a paragraph, an article with one section.\<close>

definition no_spec :: action_spec where
  "no_spec =
     \<lparr>op = [], component = None, section = None, value = None, index = None, count = None,
      formats = None, cursorOffset = None, selectRange = None, componentClass = None,
      attrs = None\<rparr>"

definition insertChars_spec :: "string \<Rightarrow> string \<Rightarrow> int \<Rightarrow> action_spec" where
  "insertChars_spec c v i =
     no_spec\<lparr>op := ''insertChars'', component := Some c, value := Some v, index := Some i\<rparr>"

definition removeChars_spec :: "string \<Rightarrow> int \<Rightarrow> int \<Rightarrow> action_spec" where
  "removeChars_spec c i n =
     no_spec\<lparr>op := ''removeChars'', component := Some c, index := Some i, count := Some n\<rparr>"

definition paragraph_of :: "string \<Rightarrow> string \<Rightarrow> text_component" where
  "paragraph_of n t = \<lparr>tc_name = n, tc_class = Paragraph, tc_text = t, tc_formats = []\<rparr>"

definition section_of :: "nat \<Rightarrow> string \<Rightarrow> text_component list \<Rightarrow> text_component section" where
  "section_of i n cs = \<lparr>ident = i, name = n, components = cs\<rparr>"

definition article_of :: "text_component section list \<Rightarrow> text_component article" where
  "article_of ss = \<lparr>sections = ss, history = [], historyAt = 0, selection = []\<rparr>"

definition operation_of :: "action_spec \<Rightarrow> action_spec \<Rightarrow> operation" where
  "operation_of d u = \<lparr>op_do = d, op_undo = u\<rparr>"

definition one_paragraph :: "string \<Rightarrow> text_component article" where
  "one_paragraph t = article_of [section_of 1 ''s1'' [paragraph_of ''c1'' t]]"

text \<open>
  Two insertions at index 0 of paragraph c1: "a" then "b" forward; their undo specs insert
  "x" and "y", so that the text shows the order in which the specs were executed.
\<close>

definition two_inserts :: transaction where
  "two_inserts =
     [operation_of (insertChars_spec ''c1'' ''a'' 0) (insertChars_spec ''c1'' ''x'' 0),
      operation_of (insertChars_spec ''c1'' ''b'' 0) (insertChars_spec ''c1'' ''y'' 0)]"

text \<open>An insertion into c1 followed by an insertion into a component that does not exist.\<close>

definition dangling_insert :: transaction where
  "dangling_insert =
     [operation_of (insertChars_spec ''c1'' ''Hi'' 0) (removeChars_spec ''c1'' 0 2),
      operation_of (insertChars_spec ''c9'' ''x'' 0) (removeChars_spec ''c9'' 0 1)]"

text \<open>A single insertion into a component that does not exist.\<close>

definition missing_insert :: transaction where
  "missing_insert = [operation_of (insertChars_spec ''c9'' ''x'' 0) (removeChars_spec ''c9'' 0 1)]"

text \<open>An insertion with its true inverse, and one whose undo spec does nothing.\<close>

definition insert_Hi :: transaction where
  "insert_Hi = [operation_of (insertChars_spec ''c1'' ''Hi'' 0) (removeChars_spec ''c1'' 0 2)]"

definition insert_Hi_no_inverse :: transaction where
  "insert_Hi_no_inverse = [operation_of (insertChars_spec ''c1'' ''Hi'' 0) no_spec]"

text \<open>
  An updateComponent with no value, no formats and no cursor offset, addressed to a
  component that does not exist.
\<close>

definition empty_update :: operation where
  "empty_update =
     operation_of (no_spec\<lparr>op := ''updateComponent'', component := Some ''c9''\<rparr>) no_spec"

section \<open>Frame properties of exec\<close>

lemma after_and_then_history:
  assumes "history (after r) = h" and "\<And>x. history x = h \<Longrightarrow> history (after (f x)) = h"
  shows "history (after (and_then r f)) = h"
  using assms by (cases r) auto

lemma after_and_then_historyAt:
  assumes "historyAt (after r) = k" and "\<And>x. historyAt x = k \<Longrightarrow> historyAt (after (f x)) = k"
  shows "historyAt (after (and_then r f)) = k"
  using assms by (cases r) auto

lemma call_method_history [simp]:
  "history (after (call_method m t a)) = history a"
  "historyAt (after (call_method m t a)) = historyAt a"
  by (auto simp: call_method_def set_component_def split: option.splits sum.splits)

lemma cursor_if_truthy_frame [simp]:
  "history (cursor_if_truthy spec t a) = history a"
  "historyAt (cursor_if_truthy spec t a) = historyAt a"
  "sections (cursor_if_truthy spec t a) = sections a"
  by (auto simp: cursor_if_truthy_def setCursor_def split: option.splits)

lemma update_selection_frame [simp]:
  "history (update_selection spec t a) = history a"
  "historyAt (update_selection spec t a) = historyAt a"
  "sections (update_selection spec t a) = sections a"
  by (auto simp: update_selection_def setCursor_def select_def split: option.splits)

lemma exec_op_cases:
  obtains (insertChars) "op (spec_of operation action) = ''insertChars''"
  | (removeChars) "op (spec_of operation action) = ''removeChars''"
  | (updateComponent) "op (spec_of operation action) = ''updateComponent''"
  | (deleteComponent) "op (spec_of operation action) = ''deleteComponent''"
  | (insertComponent) "op (spec_of operation action) = ''insertComponent''"
  | (other) "op (spec_of operation action) \<notin>
      {''insertChars'', ''removeChars'', ''updateComponent'', ''deleteComponent'', ''insertComponent''}"
  by blast

lemma exec_history [simp]: "history (after (exec env operation action a)) = history a"
proof (cases rule: exec_op_cases [of operation action])
  case insertChars
  then show ?thesis
    by (simp add: exec_def Let_def after_and_then_history)
next
  case removeChars
  then show ?thesis
    by (simp add: exec_def Let_def after_and_then_history)
next
  case updateComponent
  then show ?thesis
    by (auto simp: exec_def Let_def intro!: after_and_then_history split: option.splits)
next
  case deleteComponent
  then show ?thesis
    by (auto simp: exec_def Let_def split: option.splits sum.splits)
next
  case insertComponent
  then show ?thesis
    by (auto simp: exec_def Let_def split: option.splits sum.splits)
next
  case other
  then show ?thesis
    by (simp add: exec_def Let_def)
qed

lemma exec_historyAt [simp]: "historyAt (after (exec env operation action a)) = historyAt a"
proof (cases rule: exec_op_cases [of operation action])
  case insertChars
  then show ?thesis
    by (simp add: exec_def Let_def after_and_then_historyAt)
next
  case removeChars
  then show ?thesis
    by (simp add: exec_def Let_def after_and_then_historyAt)
next
  case updateComponent
  then show ?thesis
    by (auto simp: exec_def Let_def intro!: after_and_then_historyAt split: option.splits)
next
  case deleteComponent
  then show ?thesis
    by (auto simp: exec_def Let_def split: option.splits sum.splits)
next
  case insertComponent
  then show ?thesis
    by (auto simp: exec_def Let_def split: option.splits sum.splits)
next
  case other
  then show ?thesis
    by (simp add: exec_def Let_def)
qed

text \<open>The sections exec leaves, and whether it throws, depend on the sections only.\<close>

lemma and_then_same:
  assumes "same_outcome r1 r2"
    and "\<And>a b. sections a = sections b \<Longrightarrow> same_outcome (f a) (g b)"
  shows "same_outcome (and_then r1 f) (and_then r2 g)"
  using assms by (cases r1; cases r2) auto

lemma call_method_same:
  "sections a = sections b \<Longrightarrow> same_outcome (call_method m t a) (call_method m t b)"
  by (auto simp: call_method_def set_component_def component_at_def split: option.splits sum.splits)

lemma exec_same:
  assumes "sections a = sections b"
  shows "same_outcome (exec env operation action a) (exec env operation action b)"
proof (cases rule: exec_op_cases [of operation action])
  case insertChars
  with assms show ?thesis
    by (auto simp: exec_def Let_def getComponentByName_def intro!: and_then_same call_method_same)
next
  case removeChars
  with assms show ?thesis
    by (auto simp: exec_def Let_def getComponentByName_def intro!: and_then_same call_method_same)
next
  case updateComponent
  with assms show ?thesis
    by (auto simp: exec_def Let_def getComponentByName_def
        intro!: and_then_same call_method_same split: option.splits)
next
  case deleteComponent
  with assms show ?thesis
    by (auto simp: exec_def Let_def getComponentByName_def split: option.splits sum.splits)
next
  case insertComponent
  with assms show ?thesis
    by (auto simp: exec_def Let_def getSectionByName_def split: option.splits sum.splits)
next
  case other
  with assms show ?thesis
    by (simp add: exec_def Let_def)
qed

section \<open>The loops run the operations in order\<close>

lemma exec_all_history [simp]: "history (after (exec_all env act ops a)) = history a"
proof (induction ops arbitrary: a)
  case Nil
  show ?case by simp
next
  case (Cons operation ops)
  show ?case
    by (cases "exec env operation act a")
      (use exec_history [of env operation act a] Cons.IH in \<open>auto\<close>)
qed

lemma exec_all_historyAt [simp]: "historyAt (after (exec_all env act ops a)) = historyAt a"
proof (induction ops arbitrary: a)
  case Nil
  show ?case by simp
next
  case (Cons operation ops)
  show ?case
    by (cases "exec env operation act a")
      (use exec_historyAt [of env operation act a] Cons.IH in \<open>auto\<close>)
qed

lemma exec_all_same:
  "sections a = sections b \<Longrightarrow> same_outcome (exec_all env act ops a) (exec_all env act ops b)"
proof (induction ops arbitrary: a b)
  case Nil
  then show ?case by simp
next
  case (Cons operation ops)
  show ?case
    using exec_same [OF Cons.prems, of env operation act] Cons.IH
    by (simp add: and_then_same)
qed

declare do_loop.simps [simp del] undo_loop.simps [simp del]

lemma do_loop_exec_all:
  "i \<le> length ops \<Longrightarrow> do_loop env ops i a = exec_all env Do (drop i ops) a"
proof (induction env ops i a rule: do_loop.induct)
  case (1 env ops i a)
  show ?case
  proof (cases "i < length ops")
    case True
    then have d: "drop i ops = ops ! i # drop (Suc i) ops"
      by (simp add: Cons_nth_drop_Suc)
    have "do_loop env ops i a = and_then (exec env (ops ! i) Do a) (do_loop env ops (i + 1))"
      using True by (subst do_loop.simps) simp
    also have "\<dots> = and_then (exec env (ops ! i) Do a) (exec_all env Do (drop (Suc i) ops))"
    proof (cases "exec env (ops ! i) Do a")
      case (Returned a')
      then show ?thesis using "1.IH" [OF True, of a'] True by simp
    next
      case (Threw e a')
      then show ?thesis by simp
    qed
    finally show ?thesis by (simp add: d)
  next
    case False
    with "1.prems" have "i = length ops" by simp
    then show ?thesis by (subst do_loop.simps) simp
  qed
qed

lemma undo_loop_exec_all:
  "- 1 \<le> i \<Longrightarrow> i < int (length ops) \<Longrightarrow>
   undo_loop env ops i a = exec_all env Undo (rev (take (nat (i + 1)) ops)) a"
proof (induction env ops i a rule: undo_loop.induct)
  case (1 env ops i a)
  show ?case
  proof (cases "i \<ge> 0")
    case True
    with "1.prems" have n: "js_nth ops i = Some (ops ! nat i)"
      by (simp add: js_nth_def)
    have t: "take (nat (i + 1)) ops = take (nat i) ops @ [ops ! nat i]"
      using True "1.prems" by (simp add: nat_add_distrib take_Suc_conv_app_nth)
    have "undo_loop env ops i a =
        and_then (exec env (ops ! nat i) Undo a) (undo_loop env ops (i - 1))"
      using True n by (subst undo_loop.simps) simp
    also have "\<dots> = and_then (exec env (ops ! nat i) Undo a)
        (exec_all env Undo (rev (take (nat i) ops)))"
    proof (cases "exec env (ops ! nat i) Undo a")
      case (Returned a')
      then show ?thesis
        using "1.IH" [OF True n, of a'] True "1.prems" by simp
    next
      case (Threw e a')
      then show ?thesis by simp
    qed
    finally show ?thesis by (simp add: t)
  next
    case False
    with "1.prems" have "i = - 1" by simp
    then show ?thesis by (subst undo_loop.simps) simp
  qed
qed

section \<open>The four entry points of the history\<close>

lemma do_eq:
  assumes "0 \<le> historyAt a" and "historyAt a < int (length (history a))"
  shows "do env a =
    exec_all env Do (history a ! nat (historyAt a)) (a\<lparr>historyAt := historyAt a + 1\<rparr>)"
  using assms by (simp add: do_def js_nth_def do_loop_exec_all)

lemma redo_eq:
  assumes "0 \<le> historyAt a" and "historyAt a < int (length (history a))"
  shows "redo env a =
    exec_all env Do (history a ! nat (historyAt a)) (a\<lparr>historyAt := historyAt a + 1\<rparr>)"
  using assms by (simp add: redo_def do_eq)

lemma js_splice_tail:
  assumes "0 \<le> k" and "k \<le> int (length xs)"
  shows "js_splice xs k (int (length xs) - k) = take (nat k) xs"
  using assms by (auto simp: js_splice_def Let_def min_def max_def)

lemma transaction_eq:
  assumes "0 \<le> historyAt a" and "historyAt a \<le> int (length (history a))"
  shows "transaction env ops a =
    exec_all env Do ops
      (a\<lparr>history := take (nat (historyAt a)) (history a) @ [ops], historyAt := historyAt a + 1\<rparr>)"
proof -
  let ?h = "take (nat (historyAt a)) (history a)"
  have h: "(if historyAt a < int (length (history a))
            then js_splice (history a) (historyAt a) (int (length (history a)) - historyAt a)
            else history a) = ?h"
    using assms by (simp add: js_splice_tail)
  have len: "length ?h = nat (historyAt a)"
    using assms by simp
  have "transaction env ops a = do env (a\<lparr>history := ?h @ [ops]\<rparr>)"
    unfolding transaction_def Let_def h ..
  also have "\<dots> = exec_all env Do ((?h @ [ops]) ! nat (historyAt a))
      (a\<lparr>history := ?h @ [ops], historyAt := historyAt a + 1\<rparr>)"
    using assms len by (subst do_eq) simp_all
  also have "(?h @ [ops]) ! nat (historyAt a) = ops"
    using len by (metis nth_append_length)
  finally show ?thesis .
qed

lemma undo_eq:
  assumes "0 < historyAt a" and "historyAt a \<le> int (length (history a))"
  shows "undo env a =
    exec_all env Undo (rev (history a ! nat (historyAt a - 1))) (a\<lparr>historyAt := historyAt a - 1\<rparr>)"
  using assms by (simp add: undo_def Let_def js_nth_def undo_loop_exec_all)

section \<open>Claims\<close>

text \<open>
  C4. Calling redo() when the cursor equals the length of the history, and calling undo()
  when the cursor is 0, are no-ops: the method returns and the whole article (cursor,
  history, sections with their components, selection) is the one before the call.
\<close>

theorem redo_at_head_undo_at_origin_noop:
  "(historyAt a = int (length (history a)) \<longrightarrow> redo env a = Returned a) \<and>
   (historyAt a = 0 \<longrightarrow> undo env a = Returned a)"
  by (simp add: redo_def undo_def)

theorem redo_at_head_undo_at_origin_noop_witness:
  "historyAt (article_of [section_of 1 ''s1'' [paragraph_of ''c1'' ''Hi'']]) =
     int (length (history (article_of [section_of 1 ''s1'' [paragraph_of ''c1'' ''Hi'']]))) \<and>
   redo text_env (article_of [section_of 1 ''s1'' [paragraph_of ''c1'' ''Hi'']]) =
     Returned (article_of [section_of 1 ''s1'' [paragraph_of ''c1'' ''Hi'']]) \<and>
   historyAt (article_of [section_of 1 ''s1'' [paragraph_of ''c1'' ''Hi'']]) = 0 \<and>
   undo text_env (article_of [section_of 1 ''s1'' [paragraph_of ''c1'' ''Hi'']]) =
     Returned (article_of [section_of 1 ''s1'' [paragraph_of ''c1'' ''Hi'']])"
  using redo_at_head_undo_at_origin_noop
    [of "article_of [section_of 1 ''s1'' [paragraph_of ''c1'' ''Hi'']]" text_env]
  by (simp add: article_of_def)

text \<open>
  C10. undo() and redo() (and do()) never modify the history: whether the call returns or
  throws, the history afterwards is the history before, entry by entry. Of the entry
  points of the log, transaction() alone writes the history: it leaves the history cut
  by its splice, with the new transaction appended.
\<close>

theorem only_transaction_writes_history:
  "history (after (undo env a)) = history a \<and>
   history (after (redo env a)) = history a \<and>
   history (after (do env a)) = history a \<and>
   history (after (transaction env ops a)) =
     (if historyAt a < int (length (history a))
      then js_splice (history a) (historyAt a) (int (length (history a)) - historyAt a)
      else history a) @ [ops]"
proof -
  have loop: "history (after (do_loop env xs i b)) = history b" for xs i b
  proof (induction env xs i b rule: do_loop.induct)
    case (1 env xs i b)
    show ?case
    proof (cases "i < length xs")
      case True
      show ?thesis
      proof (cases "exec env (xs ! i) Do b")
        case (Returned b')
        with True "1.IH" [of b'] exec_history [of env "xs ! i" Do b] show ?thesis
          by (subst do_loop.simps) simp
      next
        case (Threw e b')
        with True exec_history [of env "xs ! i" Do b] show ?thesis
          by (subst do_loop.simps) simp
      qed
    next
      case False
      then show ?thesis by (subst do_loop.simps) simp
    qed
  qed
  have uloop: "history (after (undo_loop env xs i b)) = history b" for xs i b
  proof (induction env xs i b rule: undo_loop.induct)
    case (1 env xs i b)
    show ?case
    proof (cases "i \<ge> 0")
      case True
      show ?thesis
      proof (cases "js_nth xs i")
        case None
        with True show ?thesis by (subst undo_loop.simps) simp
      next
        case (Some operation)
        show ?thesis
        proof (cases "exec env operation Undo b")
          case (Returned b')
          with True Some "1.IH" [of operation b'] exec_history [of env operation Undo b]
          show ?thesis by (subst undo_loop.simps) simp
        next
          case (Threw e b')
          with True Some exec_history [of env operation Undo b]
          show ?thesis by (subst undo_loop.simps) simp
        qed
      qed
    next
      case False
      then show ?thesis by (subst undo_loop.simps) simp
    qed
  qed
  have d: "history (after (do env b)) = history b" for b
    by (simp add: do_def Let_def loop split: option.splits)
  have u: "history (after (undo env a)) = history a"
    by (simp add: undo_def Let_def uloop split: option.splits)
  have r: "history (after (redo env a)) = history a"
    by (simp add: redo_def d)
  have t: "history (after (transaction env ops a)) =
     (if historyAt a < int (length (history a))
      then js_splice (history a) (historyAt a) (int (length (history a)) - historyAt a)
      else history a) @ [ops]"
    by (simp add: transaction_def Let_def d)
  from u r d t show ?thesis by blast
qed

theorem only_transaction_writes_history_witness:
  "history (after (undo text_env
      ((article_of [section_of 1 ''s1'' [paragraph_of ''c1'' ''Hi'']])
         \<lparr>history := [[]], historyAt := 1\<rparr>))) = [[]] \<and>
   history (after (redo text_env
      ((article_of [section_of 1 ''s1'' [paragraph_of ''c1'' ''Hi'']])
         \<lparr>history := [[]], historyAt := 1\<rparr>))) = [[]]"
  using only_transaction_writes_history
    [of text_env "(article_of [section_of 1 ''s1'' [paragraph_of ''c1'' ''Hi'']])
         \<lparr>history := [[]], historyAt := 1\<rparr>" "[]"]
  by simp

lemmas eval_defs =
  exec_def Let_def getComponentByName_def getSectionByName_def getComponentClassByName_def
  call_method_def component_at_def set_component_def cursor_if_truthy_def
  update_selection_def setCursor_def select_def Section_insertComponentAt_def
  Section_removeComponent_def text_env_def text_insert_def text_remove_def text_new_def
  no_spec_def insertChars_spec_def removeChars_spec_def paragraph_of_def section_of_def
  article_of_def operation_of_def one_paragraph_def

text \<open>
  C5. Forward application takes the entry at the cursor, increments the cursor and
  executes the do spec of each operation in array order; this is what do(), redo() and
  transaction() (on the entry it has just appended) do. undo() decrements the cursor and
  executes the undo spec of each operation of the entry now at the cursor, last operation
  first.
\<close>

theorem forward_in_order_undo_in_reverse:
  "(0 \<le> historyAt a \<and> historyAt a < int (length (history a)) \<longrightarrow>
      do env a =
        exec_all env Do (history a ! nat (historyAt a)) (a\<lparr>historyAt := historyAt a + 1\<rparr>) \<and>
      redo env a =
        exec_all env Do (history a ! nat (historyAt a)) (a\<lparr>historyAt := historyAt a + 1\<rparr>)) \<and>
   (0 \<le> historyAt a \<and> historyAt a \<le> int (length (history a)) \<longrightarrow>
      transaction env ops a =
        exec_all env Do ops
          (a\<lparr>history := take (nat (historyAt a)) (history a) @ [ops],
             historyAt := historyAt a + 1\<rparr>)) \<and>
   (0 < historyAt a \<and> historyAt a \<le> int (length (history a)) \<longrightarrow>
      undo env a =
        exec_all env Undo (rev (history a ! nat (historyAt a - 1)))
          (a\<lparr>historyAt := historyAt a - 1\<rparr>))"
  using do_eq [of a env] redo_eq [of a env] transaction_eq [of a env ops] undo_eq [of a env]
  by blast

theorem forward_in_order_undo_in_reverse_witness:
  "sections (after (redo text_env ((one_paragraph [])\<lparr>history := [two_inserts]\<rparr>))) =
     sections (one_paragraph ''ba'') \<and>
   historyAt (after (redo text_env ((one_paragraph [])\<lparr>history := [two_inserts]\<rparr>))) = 1 \<and>
   sections (after (transaction text_env two_inserts (one_paragraph []))) =
     sections (one_paragraph ''ba'') \<and>
   sections (after (undo text_env
       ((one_paragraph [])\<lparr>history := [two_inserts], historyAt := 1\<rparr>))) =
     sections (one_paragraph ''xy'') \<and>
   historyAt (after (undo text_env
       ((one_paragraph [])\<lparr>history := [two_inserts], historyAt := 1\<rparr>))) = 0"
  using
    forward_in_order_undo_in_reverse
      [of "(one_paragraph [])\<lparr>history := [two_inserts]\<rparr>" text_env two_inserts]
    forward_in_order_undo_in_reverse
      [of "one_paragraph []" text_env two_inserts]
    forward_in_order_undo_in_reverse
      [of "(one_paragraph [])\<lparr>history := [two_inserts], historyAt := 1\<rparr>" text_env two_inserts]
  by (simp add: eval_defs two_inserts_def)

lemma transaction_history:
  assumes "0 \<le> historyAt a" and "historyAt a \<le> int (length (history a))"
  shows "history (after (transaction env ops a)) = take (nat (historyAt a)) (history a) @ [ops]"
    and "historyAt (after (transaction env ops a)) = historyAt a + 1"
  using assms by (simp_all add: transaction_eq)

lemma exec_all_append:
  "exec_all env act (xs @ ys) a = and_then (exec_all env act xs a) (exec_all env act ys)"
proof (induction xs arbitrary: a)
  case Nil
  show ?case by simp
next
  case (Cons x xs)
  show ?case
    by (cases "exec env x act a") (simp_all add: Cons.IH)
qed

text \<open>
  C3. With the cursor before the end of the history, transaction() keeps the entries
  below the cursor, discards those at indices from the cursor on, appends the new
  transaction and executes it; afterwards the cursor is at the end of the history, nothing
  is redoable and redo() is a no-op. This holds whether the new transaction returns or
  throws.
\<close>

theorem new_transaction_discards_redo_tail:
  assumes "0 \<le> historyAt a" and "historyAt a < int (length (history a))"
  shows "history (after (transaction env ops a)) = take (nat (historyAt a)) (history a) @ [ops] \<and>
    transaction env ops a =
      exec_all env Do ops
        (a\<lparr>history := take (nat (historyAt a)) (history a) @ [ops],
           historyAt := historyAt a + 1\<rparr>) \<and>
    historyAt (after (transaction env ops a)) =
      int (length (history (after (transaction env ops a)))) \<and>
    redoable (after (transaction env ops a)) = [] \<and>
    redo env (after (transaction env ops a)) = Returned (after (transaction env ops a))"
proof -
  have le: "historyAt a \<le> int (length (history a))"
    using assms by simp
  note h = transaction_history [OF assms(1) le, of env ops]
  have len: "historyAt (after (transaction env ops a)) =
      int (length (history (after (transaction env ops a))))"
    using assms by (simp add: h)
  have "redoable (after (transaction env ops a)) = []"
    by (simp add: redoable_def len)
  moreover have "redo env (after (transaction env ops a)) = Returned (after (transaction env ops a))"
    by (simp add: redo_def len)
  ultimately show ?thesis
    using h(1) len transaction_eq [OF assms(1) le, of env ops] by simp
qed

theorem new_transaction_discards_redo_tail_witness:
  "history (after (transaction text_env insert_Hi
      ((one_paragraph [])\<lparr>history := [two_inserts, two_inserts], historyAt := 1\<rparr>))) =
     [two_inserts, insert_Hi] \<and>
   redo text_env (after (transaction text_env insert_Hi
      ((one_paragraph [])\<lparr>history := [two_inserts, two_inserts], historyAt := 1\<rparr>))) =
     Returned (after (transaction text_env insert_Hi
      ((one_paragraph [])\<lparr>history := [two_inserts, two_inserts], historyAt := 1\<rparr>)))"
proof -
  let ?a = "(one_paragraph [])\<lparr>history := [two_inserts, two_inserts], historyAt := 1\<rparr>"
  have r: "0 \<le> historyAt ?a" "historyAt ?a < int (length (history ?a))"
    by simp_all
  from new_transaction_discards_redo_tail [OF r, of text_env insert_Hi]
  have "history (after (transaction text_env insert_Hi ?a)) =
      take (nat (historyAt ?a)) (history ?a) @ [insert_Hi]"
    and "redo text_env (after (transaction text_env insert_Hi ?a)) =
      Returned (after (transaction text_env insert_Hi ?a))"
    by blast+
  then show ?thesis by simp
qed

text \<open>
  C2, as the code has it. transaction() is not all-or-nothing: the redo tail is cut, the
  transaction is appended and the cursor is incremented before the first operation is
  executed, so after the call the history ends with the transaction and the cursor is one
  more than before, whether the call returned or threw. When every operation applies, the
  call returns the state they lead to; when an operation throws, the call throws the same
  error at once, in the state that operation left: the operations before it stay applied
  and those after it are not executed.
\<close>

theorem transaction_bookkeeping_precedes_execution:
  assumes "0 \<le> historyAt a" and "historyAt a \<le> int (length (history a))"
  shows "history (after (transaction env ops a)) = take (nat (historyAt a)) (history a) @ [ops] \<and>
    historyAt (after (transaction env ops a)) = historyAt a + 1 \<and>
    (\<forall>a1. exec_all env Do ops
            (a\<lparr>history := take (nat (historyAt a)) (history a) @ [ops],
               historyAt := historyAt a + 1\<rparr>) = Returned a1 \<longrightarrow>
          transaction env ops a = Returned a1) \<and>
    (\<forall>before operation rest a1 e a2.
        ops = before @ operation # rest \<and>
        exec_all env Do before
            (a\<lparr>history := take (nat (historyAt a)) (history a) @ [ops],
               historyAt := historyAt a + 1\<rparr>) = Returned a1 \<and>
        exec env operation Do a1 = Threw e a2 \<longrightarrow>
          transaction env ops a = Threw e a2)"
proof -
  note h = transaction_history [OF assms, of env ops]
  note t = transaction_eq [OF assms, of env ops]
  have "transaction env ops a = Threw e a2"
    if "ops = before @ operation # rest"
      and "exec_all env Do before
            (a\<lparr>history := take (nat (historyAt a)) (history a) @ [ops],
               historyAt := historyAt a + 1\<rparr>) = Returned a1"
      and "exec env operation Do a1 = Threw e a2"
    for before operation rest a1 e a2
  proof -
    have "transaction env ops a =
        exec_all env Do (before @ operation # rest)
            (a\<lparr>history := take (nat (historyAt a)) (history a) @ [ops],
               historyAt := historyAt a + 1\<rparr>)"
      using t that(1) by simp
    also have "\<dots> = exec_all env Do (operation # rest) a1"
      by (simp only: exec_all_append that(2) and_then.simps)
    also have "\<dots> = Threw e a2"
      by (simp add: that(3))
    finally show ?thesis .
  qed
  then have failing: "\<forall>before operation rest a1 e a2.
        ops = before @ operation # rest \<and>
        exec_all env Do before
            (a\<lparr>history := take (nat (historyAt a)) (history a) @ [ops],
               historyAt := historyAt a + 1\<rparr>) = Returned a1 \<and>
        exec env operation Do a1 = Threw e a2 \<longrightarrow>
          transaction env ops a = Threw e a2"
    by blast
  have returning: "\<forall>a1. exec_all env Do ops
            (a\<lparr>history := take (nat (historyAt a)) (history a) @ [ops],
               historyAt := historyAt a + 1\<rparr>) = Returned a1 \<longrightarrow>
          transaction env ops a = Returned a1"
    by (simp add: t)
  from h(1) h(2) returning failing show ?thesis
    by (intro conjI)
qed

theorem transaction_bookkeeping_precedes_execution_witness:
  "historyAt (after (transaction text_env dangling_insert (one_paragraph []))) = 1 \<and>
   history (after (transaction text_env dangling_insert (one_paragraph []))) = [dangling_insert] \<and>
   transaction text_env insert_Hi (one_paragraph []) =
     Returned ((one_paragraph ''Hi'')\<lparr>history := [insert_Hi], historyAt := 1\<rparr>) \<and>
   transaction text_env dangling_insert (one_paragraph []) =
     Threw TypeError ((one_paragraph ''Hi'')\<lparr>history := [dangling_insert], historyAt := 1\<rparr>)"
proof -
  let ?p = "one_paragraph []"
  let ?start = "\<lambda>ops. ?p\<lparr>history := take (nat (historyAt ?p)) (history ?p) @ [ops],
      historyAt := historyAt ?p + 1\<rparr>"
  have r: "0 \<le> historyAt ?p" "historyAt ?p \<le> int (length (history ?p))"
    by (simp_all add: one_paragraph_def article_of_def)
  have p: "historyAt ?p = 0" "history ?p = []"
    by (simp_all add: one_paragraph_def article_of_def)
  note ok = transaction_bookkeeping_precedes_execution [OF r, of text_env insert_Hi]
  note ko = transaction_bookkeeping_precedes_execution [OF r, of text_env dangling_insert]
  have i: "exec_all text_env Do insert_Hi (?start insert_Hi) =
      Returned ((one_paragraph ''Hi'')\<lparr>history := [insert_Hi], historyAt := 1\<rparr>)"
    by (simp add: eval_defs insert_Hi_def)
  have d1: "exec_all text_env Do [hd dangling_insert] (?start dangling_insert) =
      Returned ((one_paragraph ''Hi'')\<lparr>history := [dangling_insert], historyAt := 1\<rparr>)"
    by (simp add: eval_defs dangling_insert_def)
  have d2: "exec text_env (dangling_insert ! 1) Do
      ((one_paragraph ''Hi'')\<lparr>history := [dangling_insert], historyAt := 1\<rparr>) =
      Threw TypeError ((one_paragraph ''Hi'')\<lparr>history := [dangling_insert], historyAt := 1\<rparr>)"
    by (simp add: eval_defs dangling_insert_def)
  have s: "dangling_insert = [hd dangling_insert] @ dangling_insert ! 1 # []"
    by (simp add: dangling_insert_def)
  have "historyAt (after (transaction text_env dangling_insert ?p)) = 1"
    using ko [THEN conjunct2, THEN conjunct1] p by simp
  moreover have "history (after (transaction text_env dangling_insert ?p)) = [dangling_insert]"
    using ko [THEN conjunct1] p by simp
  moreover have "transaction text_env insert_Hi ?p =
      Returned ((one_paragraph ''Hi'')\<lparr>history := [insert_Hi], historyAt := 1\<rparr>)"
    using ok [THEN conjunct2, THEN conjunct2, THEN conjunct1] i by blast
  moreover have "transaction text_env dangling_insert ?p =
      Threw TypeError ((one_paragraph ''Hi'')\<lparr>history := [dangling_insert], historyAt := 1\<rparr>)"
    using ko [THEN conjunct2, THEN conjunct2, THEN conjunct2] s d1 d2 by blast
  ultimately show ?thesis by blast
qed

theorem failed_transaction_counterexample:
  "transaction text_env dangling_insert (one_paragraph []) =
     Threw TypeError ((one_paragraph ''Hi'')\<lparr>history := [dangling_insert], historyAt := 1\<rparr>) \<and>
   sections (after (transaction text_env dangling_insert (one_paragraph []))) \<noteq>
     sections (one_paragraph []) \<and>
   historyAt (after (transaction text_env dangling_insert (one_paragraph []))) \<noteq>
     historyAt (one_paragraph [])"
  by (simp add: transaction_eq eval_defs dangling_insert_def)

section \<open>The cursor invariant\<close>

lemma Article_fresh:
  "Article env params_sections sel = Inr a \<Longrightarrow> history a = [] \<and> historyAt a = 0"
  by (auto simp: Article_def split: sum.splits)

lemma undo_cursor:
  assumes "0 \<le> historyAt a" and "historyAt a \<le> int (length (history a))"
  shows "history (after (undo env a)) = history a"
    and "historyAt (after (undo env a)) = (if 0 < historyAt a then historyAt a - 1 else 0)"
proof -
  show "history (after (undo env a)) = history a"
  proof (cases "0 < historyAt a")
    case True
    then show ?thesis using assms by (simp add: undo_eq)
  next
    case False
    then show ?thesis by (simp add: undo_def)
  qed
  show "historyAt (after (undo env a)) = (if 0 < historyAt a then historyAt a - 1 else 0)"
  proof (cases "0 < historyAt a")
    case True
    then show ?thesis using assms by (simp add: undo_eq)
  next
    case False
    then show ?thesis using assms by (simp add: undo_def)
  qed
qed

lemma redo_cursor:
  assumes "0 \<le> historyAt a" and "historyAt a \<le> int (length (history a))"
  shows "history (after (redo env a)) = history a"
    and "historyAt (after (redo env a)) =
      (if historyAt a < int (length (history a)) then historyAt a + 1 else historyAt a)"
proof -
  show "history (after (redo env a)) = history a"
  proof (cases "historyAt a < int (length (history a))")
    case True
    then show ?thesis using assms by (simp add: redo_eq)
  next
    case False
    then show ?thesis by (simp add: redo_def)
  qed
  show "historyAt (after (redo env a)) =
      (if historyAt a < int (length (history a)) then historyAt a + 1 else historyAt a)"
  proof (cases "historyAt a < int (length (history a))")
    case True
    then show ?thesis using assms by (simp add: redo_eq)
  next
    case False
    then show ?thesis by (simp add: redo_def)
  qed
qed

lemma reachable_cursor:
  "reachable env a \<Longrightarrow> 0 \<le> historyAt a \<and> historyAt a \<le> int (length (history a))"
proof (induction rule: reachable.induct)
  case (fresh params_sections sel a)
  then show ?case by (simp add: Article_fresh)
next
  case (by_transaction a ops)
  then show ?case by (auto simp: transaction_history)
next
  case (by_undo a)
  then show ?case by (simp add: undo_cursor)
next
  case (by_redo a)
  then show ?case by (simp add: redo_cursor)
qed

section \<open>Sections and lookups\<close>

text \<open>
  C6. insertSection: a section with no components gets one new Paragraph (the component
  \<open>new Paragraph()\<close> builds) at index 0 and so has exactly that component; a section
  with components is left as it is. In both cases the call succeeds, the section is
  appended to the sections of the article and returned.
\<close>

theorem insertSection_populates_empty_section:
  "(components s = [] \<longrightarrow>
      insertSection env s a =
        Inr (s\<lparr>components := [construct env Paragraph None]\<rparr>,
             a\<lparr>sections := sections a @ [s\<lparr>components := [construct env Paragraph None]\<rparr>]\<rparr>)) \<and>
   (components s \<noteq> [] \<longrightarrow>
      insertSection env s a = Inr (s, a\<lparr>sections := sections a @ [s]\<rparr>))"
  by (simp add: insertSection_def Section_insertComponentAt_def)

theorem insertSection_populates_empty_section_witness:
  "insertSection text_env (section_of 2 ''s2'' []) (one_paragraph ''Hi'') =
     Inr (section_of 2 ''s2'' [paragraph_of [] []],
          article_of [section_of 1 ''s1'' [paragraph_of ''c1'' ''Hi''],
                      section_of 2 ''s2'' [paragraph_of [] []]]) \<and>
   insertSection text_env (section_of 2 ''s2'' [paragraph_of ''c2'' ''x'']) (one_paragraph ''Hi'') =
     Inr (section_of 2 ''s2'' [paragraph_of ''c2'' ''x''],
          article_of [section_of 1 ''s1'' [paragraph_of ''c1'' ''Hi''],
                      section_of 2 ''s2'' [paragraph_of ''c2'' ''x'']])"
  using insertSection_populates_empty_section
      [of "section_of 2 ''s2'' []" text_env "one_paragraph ''Hi''"]
    insertSection_populates_empty_section
      [of "section_of 2 ''s2'' [paragraph_of ''c2'' ''x'']" text_env "one_paragraph ''Hi''"]
  by (simp add: section_of_def article_of_def one_paragraph_def paragraph_of_def
      text_env_def text_new_def)

lemma find_section_None:
  "find_section ss n = None \<longleftrightarrow> (\<forall>s\<in>set ss. Some (name s) \<noteq> n)"
  by (induction ss) auto

lemma find_component_None:
  "find_component env cs n = None \<longleftrightarrow> (\<forall>c\<in>set cs. Some (c_name env c) \<noteq> n)"
  by (induction cs) auto

lemma find_in_sections_None:
  "find_in_sections env ss n = None \<longleftrightarrow>
   (\<forall>s\<in>set ss. \<forall>c\<in>set (components s). Some (c_name env c) \<noteq> n)"
proof (induction ss)
  case Nil
  show ?case by simp
next
  case (Cons s ss)
  show ?case
  proof (cases "find_component env (components s) n")
    case None
    with Cons.IH find_component_None [of env "components s" n] show ?thesis
      by simp
  next
    case (Some j)
    with find_component_None [of env "components s" n] show ?thesis
      by auto
  qed
qed

text \<open>
  C7, as the code has it. A lookup by name does not fail: getComponentByName and
  getSectionByName return \<open>undefined\<close> exactly when no component, or no section, has
  the name. exec then throws a TypeError, leaving the article as it was, when the
  component named by an insertChars, removeChars or deleteComponent spec does not
  exist, when the component named by an updateComponent spec that carries a value or
  formats does not exist, and when the section named by an insertComponent spec does
  not exist.
\<close>

theorem lookup_miss_is_undefined_then_TypeError:
  "(getComponentByName env a n = None \<longleftrightarrow>
      (\<forall>s\<in>set (sections a). \<forall>c\<in>set (components s). Some (c_name env c) \<noteq> n)) \<and>
   (getSectionByName a n = None \<longleftrightarrow> (\<forall>s\<in>set (sections a). Some (name s) \<noteq> n)) \<and>
   (getComponentByName env a (component (spec_of operation action)) = None \<and>
    (op (spec_of operation action) \<in> {''insertChars'', ''removeChars'', ''deleteComponent''} \<or>
     op (spec_of operation action) = ''updateComponent'' \<and>
       (value (spec_of operation action) \<noteq> None \<or> formats (spec_of operation action) \<noteq> None)) \<longrightarrow>
      exec env operation action a = Threw TypeError a) \<and>
   (getSectionByName a (section (spec_of operation action)) = None \<and>
    op (spec_of operation action) = ''insertComponent'' \<longrightarrow>
      exec env operation action a = Threw TypeError a)"
proof -
  let ?spec = "spec_of operation action"
  have c: "getComponentByName env a n = None \<longleftrightarrow>
      (\<forall>s\<in>set (sections a). \<forall>c\<in>set (components s). Some (c_name env c) \<noteq> n)"
    by (simp add: getComponentByName_def find_in_sections_None)
  have s: "getSectionByName a n = None \<longleftrightarrow> (\<forall>s\<in>set (sections a). Some (name s) \<noteq> n)"
    by (simp add: getSectionByName_def find_section_None)
  have e1: "exec env operation action a = Threw TypeError a"
    if "getComponentByName env a (component ?spec) = None"
      and "op ?spec \<in> {''insertChars'', ''removeChars'', ''deleteComponent''}"
    using that by (auto simp: exec_def Let_def call_method_def)
  have e2: "exec env operation action a = Threw TypeError a"
    if "getComponentByName env a (component ?spec) = None"
      and "op ?spec = ''updateComponent''"
      and "value ?spec \<noteq> None \<or> formats ?spec \<noteq> None"
    using that by (auto simp: exec_def Let_def call_method_def split: option.splits)
  have e3: "exec env operation action a = Threw TypeError a"
    if "getSectionByName a (section ?spec) = None" and "op ?spec = ''insertComponent''"
    using that by (auto simp: exec_def Let_def split: option.splits)
  from c s e1 e2 e3 show ?thesis
    by blast
qed

theorem lookup_miss_is_undefined_then_TypeError_witness:
  "getComponentByName text_env (one_paragraph ''Hi'') (Some ''c9'') = None \<and>
   getSectionByName (one_paragraph ''Hi'') (Some ''s9'') = None \<and>
   exec text_env (operation_of (insertChars_spec ''c9'' ''x'' 0) no_spec) Do (one_paragraph ''Hi'') =
     Threw TypeError (one_paragraph ''Hi'')"
proof -
  let ?o = "operation_of (insertChars_spec ''c9'' ''x'' 0) no_spec"
  note th = lookup_miss_is_undefined_then_TypeError
      [of text_env "one_paragraph ''Hi''" "Some ''c9''" ?o Do]
  note th' = lookup_miss_is_undefined_then_TypeError
      [of text_env "one_paragraph ''Hi''" "Some ''s9''" ?o Do]
  have c: "getComponentByName text_env (one_paragraph ''Hi'') (Some ''c9'') = None"
    using th [THEN conjunct1]
    by (simp add: one_paragraph_def article_of_def section_of_def paragraph_of_def text_env_def)
  have s: "getSectionByName (one_paragraph ''Hi'') (Some ''s9'') = None"
    using th' [THEN conjunct2, THEN conjunct1]
    by (simp add: one_paragraph_def article_of_def section_of_def)
  have "exec text_env ?o Do (one_paragraph ''Hi'') = Threw TypeError (one_paragraph ''Hi'')"
    using th [THEN conjunct2, THEN conjunct2, THEN conjunct1] c
    by (simp add: operation_of_def insertChars_spec_def no_spec_def)
  with c s show ?thesis by blast
qed

theorem lookup_miss_counterexample:
  "getComponentByName text_env (one_paragraph ''Hi'') (Some ''c9'') = None \<and>
   getSectionByName (one_paragraph ''Hi'') (Some ''s9'') = None \<and>
   exec text_env empty_update Do (one_paragraph ''Hi'') = Returned (one_paragraph ''Hi'')"
  by (simp add: eval_defs empty_update_def)

section \<open>removeSection\<close>

lemma indexOf_range: "- 1 \<le> indexOf xs s \<and> indexOf xs s < int (length xs)"
  by (induction xs) (auto simp: Let_def)

lemma indexOf_absent: "ident s \<notin> ident ` set xs \<Longrightarrow> indexOf xs s = - 1"
  by (induction xs) (auto simp: Let_def)

lemma indexOf_present:
  "ident x = ident s \<Longrightarrow> ident s \<notin> ident ` set before \<Longrightarrow>
   indexOf (before @ x # rest) s = int (length before)"
  by (induction before) (auto simp: Let_def)

lemma js_splice_one: "js_splice (before @ x # rest) (int (length before)) 1 = before @ rest"
proof -
  have "nat (int (length before) + 1) = Suc (length before)"
    by simp
  then show ?thesis
    by (simp add: js_splice_def Let_def)
qed

lemma js_splice_last: "js_splice xs (- 1) 1 = butlast xs"
proof (cases xs rule: rev_cases)
  case Nil
  then show ?thesis by (simp add: js_splice_def)
next
  case (snoc ys y)
  have "nat (int (length ys)) = length ys" "nat (int (length ys) + 1) = Suc (length ys)"
    by simp_all
  then show ?thesis
    by (simp add: snoc js_splice_def Let_def)
qed

text \<open>A section that is in the article: exactly its first occurrence is removed.\<close>

lemma removeSection_present:
  assumes "sections a = before @ x # rest" and "ident x = ident s"
    and "ident s \<notin> ident ` set before"
  shows "removeSection s a = (s, a\<lparr>sections := before @ rest\<rparr>)"
  using indexOf_present [OF assms(2,3), of rest]
  by (simp add: removeSection_def Let_def assms(1) js_splice_one)

text \<open>A section that is not in the article: the last section is removed.\<close>

lemma removeSection_absent:
  assumes "ident s \<notin> ident ` set (sections a)"
  shows "removeSection s a = (s, a\<lparr>sections := butlast (sections a)\<rparr>)"
  using indexOf_absent [OF assms]
  by (simp add: removeSection_def Let_def js_splice_last)

text \<open>
  C8. removeSection called with a section that is not in the article: indexOf returns
  -1 and \<open>splice(-1, 1)\<close> removes the last section. Here sections 1 and 2 are in the
  article, section 3 is not; the call returns section 3 and section 2 is gone.
\<close>

theorem removeSection_absent_removes_last:
  "removeSection (section_of 3 ''s3'' [paragraph_of ''c3'' []])
     (article_of [section_of 1 ''s1'' [paragraph_of ''c1'' []],
                  section_of 2 ''s2'' [paragraph_of ''c2'' []]]) =
   (section_of 3 ''s3'' [paragraph_of ''c3'' []],
    article_of [section_of 1 ''s1'' [paragraph_of ''c1'' []]])"
  by (simp add: removeSection_def js_splice_def section_of_def article_of_def)

section \<open>Undo followed by redo\<close>

lemma and_then_Returned [simp]: "and_then r Returned = r"
  by (cases r) simp_all

lemma and_then_assoc:
  "and_then (and_then r f) g = and_then r (\<lambda>x. and_then (f x) g)"
  by (cases r) simp_all

lemma undos_Suc_end: "undos env (Suc n) a = and_then (undos env n a) (undo env)"
proof (induction n arbitrary: a)
  case 0
  have "undos env 0 = Returned"
    by (rule ext) simp
  then show ?case by simp
next
  case (Suc n)
  have "undos env (Suc (Suc n)) a = and_then (undo env a) (undos env (Suc n))"
    by simp
  also have "\<dots> = and_then (undo env a) (\<lambda>x. and_then (undos env n x) (undo env))"
    using Suc.IH by presburger
  also have "\<dots> = and_then (undos env (Suc n) a) (undo env)"
    by (simp add: and_then_assoc)
  finally show ?case .
qed

lemma same_outcome_Returned:
  assumes "same_outcome (Returned x) r"
  shows "returned r \<and> sections (after r) = sections x"
  using assms by (cases r) simp_all

lemma returned_after: "returned r \<Longrightarrow> r = Returned (after r)"
  by (cases r) simp_all

lemma inverses_hold_ConsE:
  fixes a :: "'c article"
  assumes "inverses_hold env (ops # rest) a"
  obtains a1 a0 :: "'c article"
    where "transaction env ops a = Returned a1" and "undo env a1 = Returned a0"
    and "sections a0 = sections a" and "inverses_hold env rest a1"
  using assms by (auto split: outcome.splits)

text \<open>
  An undo in a state with the sections, the cursor and the entry below the cursor of a
  state where undo returns: it returns too, with the same sections.
\<close>

lemma undo_similar:
  assumes "undo env a1 = Returned a0"
    and "0 < historyAt a1" and "historyAt a1 \<le> int (length (history a1))"
    and "sections b = sections a1" and "historyAt b = historyAt a1"
    and "historyAt b \<le> int (length (history b))"
    and "history b ! nat (historyAt a1 - 1) = history a1 ! nat (historyAt a1 - 1)"
  shows "returned (undo env b) \<and> sections (after (undo env b)) = sections a0 \<and>
    history (after (undo env b)) = history b \<and>
    historyAt (after (undo env b)) = historyAt a1 - 1"
proof -
  let ?ops = "rev (history a1 ! nat (historyAt a1 - 1))"
  have ua: "undo env a1 = exec_all env Undo ?ops (a1\<lparr>historyAt := historyAt a1 - 1\<rparr>)"
    using assms(2,3) by (rule undo_eq)
  have ub: "undo env b = exec_all env Undo ?ops (b\<lparr>historyAt := historyAt a1 - 1\<rparr>)"
    using assms(2,5,6,7) undo_eq [of b env] by simp
  have "same_outcome (exec_all env Undo ?ops (a1\<lparr>historyAt := historyAt a1 - 1\<rparr>))
      (exec_all env Undo ?ops (b\<lparr>historyAt := historyAt a1 - 1\<rparr>))"
    by (rule exec_all_same) (simp add: assms(4))
  then have "same_outcome (Returned a0) (undo env b)"
    using ua ub assms(1) by simp
  then have "returned (undo env b) \<and> sections (after (undo env b)) = sections a0"
    by (rule same_outcome_Returned)
  moreover have "history (after (undo env b)) = history b"
    "historyAt (after (undo env b)) = historyAt a1 - 1"
    by (simp_all add: ub)
  ultimately show ?thesis by simp
qed

text \<open>
  A redo in a state with the sections and the cursor a transaction was submitted in, and
  with that transaction at the cursor: it returns when the transaction did, with the
  same sections.
\<close>

lemma redo_similar:
  assumes "transaction env ops a = Returned a1"
    and "0 \<le> historyAt a" and "historyAt a \<le> int (length (history a))"
    and "sections c = sections a" and "historyAt c = historyAt a"
    and "historyAt c < int (length (history c))"
    and "history c ! nat (historyAt c) = ops"
  shows "returned (redo env c) \<and> sections (after (redo env c)) = sections a1 \<and>
    history (after (redo env c)) = history c \<and>
    historyAt (after (redo env c)) = historyAt a + 1"
proof -
  let ?a' = "a\<lparr>history := take (nat (historyAt a)) (history a) @ [ops],
      historyAt := historyAt a + 1\<rparr>"
  have ta: "transaction env ops a = exec_all env Do ops ?a'"
    using assms(2,3) by (rule transaction_eq)
  have rc: "redo env c = exec_all env Do ops (c\<lparr>historyAt := historyAt a + 1\<rparr>)"
    using assms(2,5,6,7) redo_eq [of c env] by simp
  have "same_outcome (exec_all env Do ops ?a') (exec_all env Do ops (c\<lparr>historyAt := historyAt a + 1\<rparr>))"
    by (rule exec_all_same) (simp add: assms(4))
  then have "same_outcome (Returned a1) (redo env c)"
    using ta rc assms(1) by simp
  then have "returned (redo env c) \<and> sections (after (redo env c)) = sections a1"
    by (rule same_outcome_Returned)
  moreover have "history (after (redo env c)) = history c"
    "historyAt (after (redo env c)) = historyAt a + 1"
    by (simp_all add: rc)
  ultimately show ?thesis by simp
qed

text \<open>The run of the transactions: it returns, and the history below the cursor grows by them.\<close>

lemma transactions_run:
  assumes "inverses_hold env Ts a"
    and "0 \<le> historyAt a" and "historyAt a \<le> int (length (history a))"
  shows "returned (transactions env Ts a) \<and>
    historyAt (after (transactions env Ts a)) = historyAt a + int (length Ts) \<and>
    take (nat (historyAt (after (transactions env Ts a)))) (history (after (transactions env Ts a))) =
      take (nat (historyAt a)) (history a) @ Ts"
  using assms
proof (induction Ts arbitrary: a)
  case Nil
  show ?case by simp
next
  case (Cons ops rest)
  from Cons.prems(1) obtain a1 a0 where t: "transaction env ops a = Returned a1"
    and u: "undo env a1 = Returned a0" and rest: "inverses_hold env rest a1"
    by (rule inverses_hold_ConsE)
  have h1: "history a1 = take (nat (historyAt a)) (history a) @ [ops]"
    and k1: "historyAt a1 = historyAt a + 1"
    using transaction_history [OF Cons.prems(2,3), of env ops] t by simp_all
  have inv1: "0 \<le> historyAt a1" "historyAt a1 \<le> int (length (history a1))"
    using Cons.prems(2,3) by (simp_all add: h1 k1)
  have full: "take (nat (historyAt a1)) (history a1) = history a1"
    using Cons.prems(2,3) by (simp add: h1 k1)
  have eq: "transactions env (ops # rest) a = transactions env rest a1"
    by (simp add: t)
  let ?an = "after (transactions env rest a1)"
  from Cons.IH [OF rest inv1] have ih: "returned (transactions env rest a1)"
    "historyAt ?an = historyAt a1 + int (length rest)"
    "take (nat (historyAt ?an)) (history ?an) = take (nat (historyAt a1)) (history a1) @ rest"
    by blast+
  have "take (nat (historyAt a1)) (history a1) @ rest =
      take (nat (historyAt a)) (history a) @ ops # rest"
    unfolding full by (simp add: h1)
  with ih show ?case
    unfolding eq by (simp add: k1)
qed

lemma take_eq_appendD:
  assumes "take k xs = before @ y # ys"
  shows "length before < length xs" and "xs ! length before = y"
proof -
  have "length (take k xs) = length before + Suc (length ys)"
    by (simp add: assms)
  then have k: "length before < k" and l: "length before < length xs"
    by simp_all
  show "length before < length xs" by (rule l)
  have "xs ! length before = take k xs ! length before"
    using k by simp
  also have "\<dots> = y"
    by (simp add: assms)
  finally show "xs ! length before = y" .
qed

text \<open>
  Undoing as many times as there were transactions, from a state that has the sections
  the transactions led to, the cursor after them and the transactions below the cursor.
\<close>

lemma undos_run:
  assumes "inverses_hold env Ts a"
    and "0 \<le> historyAt a" and "historyAt a \<le> int (length (history a))"
    and "sections b = sections (after (transactions env Ts a))"
    and "historyAt b = historyAt a + int (length Ts)"
    and "take (nat (historyAt b)) (history b) = take (nat (historyAt a)) (history a) @ Ts"
  shows "returned (undos env (length Ts) b) \<and>
    sections (after (undos env (length Ts) b)) = sections a \<and>
    history (after (undos env (length Ts) b)) = history b \<and>
    historyAt (after (undos env (length Ts) b)) = historyAt a"
  using assms
proof (induction Ts arbitrary: a)
  case Nil
  then show ?case by simp
next
  case (Cons ops rest)
  from Cons.prems(1) obtain a1 a0 where t: "transaction env ops a = Returned a1"
    and u: "undo env a1 = Returned a0" and s0: "sections a0 = sections a"
    and rest: "inverses_hold env rest a1"
    by (rule inverses_hold_ConsE)
  have h1: "history a1 = take (nat (historyAt a)) (history a) @ [ops]"
    and k1: "historyAt a1 = historyAt a + 1"
    using transaction_history [OF Cons.prems(2,3), of env ops] t by simp_all
  have len: "length (take (nat (historyAt a)) (history a)) = nat (historyAt a)"
    using Cons.prems(2,3) by simp
  have inv1: "0 \<le> historyAt a1" "historyAt a1 \<le> int (length (history a1))"
    using Cons.prems(2,3) by (simp_all add: h1 k1)
  have full: "take (nat (historyAt a1)) (history a1) = history a1"
    using Cons.prems(2,3) by (simp add: h1 k1)
  have b1: "sections b = sections (after (transactions env rest a1))"
    using Cons.prems(4) by (simp add: t)
  have b2: "historyAt b = historyAt a1 + int (length rest)"
    using Cons.prems(5) by (simp add: k1)
  have b3: "take (nat (historyAt b)) (history b) = take (nat (historyAt a1)) (history a1) @ rest"
    unfolding full using Cons.prems(6) by (simp add: h1)
  let ?b1 = "after (undos env (length rest) b)"
  from Cons.IH [OF rest inv1 b1 b2 b3]
  have r: "returned (undos env (length rest) b)" and s1: "sections ?b1 = sections a1"
    and hb: "history ?b1 = history b" and kb: "historyAt ?b1 = historyAt a1"
    by blast+
  from Cons.prems(6) have at: "nat (historyAt a) < length (history b)"
    and ops: "history b ! nat (historyAt a) = ops"
    using take_eq_appendD [of "nat (historyAt b)" "history b"
        "take (nat (historyAt a)) (history a)" ops rest] len
    by simp_all
  have "length (ops # rest) = Suc (length rest)"
    by simp
  then have "undos env (length (ops # rest)) b = and_then (undos env (length rest) b) (undo env)"
    by (simp only: undos_Suc_end)
  also have "\<dots> = undo env ?b1"
    using returned_after [OF r] by (metis and_then.simps(1))
  finally have eq: "undos env (length (ops # rest)) b = undo env ?b1" .
  have "returned (undo env ?b1) \<and> sections (after (undo env ?b1)) = sections a0 \<and>
    history (after (undo env ?b1)) = history ?b1 \<and>
    historyAt (after (undo env ?b1)) = historyAt a1 - 1"
  proof (rule undo_similar [OF u _ inv1(2) s1 kb])
    show "0 < historyAt a1"
      using Cons.prems(2) by (simp add: k1)
    show "historyAt ?b1 \<le> int (length (history ?b1))"
      using at Cons.prems(2) by (simp add: kb hb k1)
    show "history ?b1 ! nat (historyAt a1 - 1) = history a1 ! nat (historyAt a1 - 1)"
      using ops len by (simp add: hb k1 h1 nth_append)
  qed
  then show ?case
    unfolding eq by (simp add: s0 hb k1)
qed

text \<open>
  Redoing as many times, from a state that has the sections and the cursor the
  transactions started from, and the transactions from the cursor on.
\<close>

lemma redos_run:
  assumes "inverses_hold env Ts a"
    and "0 \<le> historyAt a" and "historyAt a \<le> int (length (history a))"
    and "sections c = sections a"
    and "historyAt c = historyAt a"
    and "take (nat (historyAt a + int (length Ts))) (history c) =
      take (nat (historyAt a)) (history a) @ Ts"
  shows "returned (redos env (length Ts) c) \<and>
    sections (after (redos env (length Ts) c)) = sections (after (transactions env Ts a)) \<and>
    history (after (redos env (length Ts) c)) = history c \<and>
    historyAt (after (redos env (length Ts) c)) = historyAt a + int (length Ts)"
  using assms
proof (induction Ts arbitrary: a c)
  case Nil
  then show ?case by simp
next
  case (Cons ops rest)
  from Cons.prems(1) obtain a1 a0 where t: "transaction env ops a = Returned a1"
    and u: "undo env a1 = Returned a0" and rest: "inverses_hold env rest a1"
    by (rule inverses_hold_ConsE)
  have h1: "history a1 = take (nat (historyAt a)) (history a) @ [ops]"
    and k1: "historyAt a1 = historyAt a + 1"
    using transaction_history [OF Cons.prems(2,3), of env ops] t by simp_all
  have len: "length (take (nat (historyAt a)) (history a)) = nat (historyAt a)"
    using Cons.prems(2,3) by simp
  have inv1: "0 \<le> historyAt a1" "historyAt a1 \<le> int (length (history a1))"
    using Cons.prems(2,3) by (simp_all add: h1 k1)
  have full: "take (nat (historyAt a1)) (history a1) = history a1"
    using Cons.prems(2,3) by (simp add: h1 k1)
  from Cons.prems(6) have at: "nat (historyAt a) < length (history c)"
    and ops: "history c ! nat (historyAt a) = ops"
    using take_eq_appendD [of "nat (historyAt a + int (length (ops # rest)))" "history c"
        "take (nat (historyAt a)) (history a)" ops rest] len
    by simp_all
  let ?c1 = "after (redo env c)"
  have "returned (redo env c) \<and> sections ?c1 = sections a1 \<and>
    history ?c1 = history c \<and> historyAt ?c1 = historyAt a + 1"
  proof (rule redo_similar [OF t Cons.prems(2,3,4,5)])
    show "historyAt c < int (length (history c))"
      using at Cons.prems(2) by (simp add: Cons.prems(5))
    show "history c ! nat (historyAt c) = ops"
      using ops by (simp add: Cons.prems(5))
  qed
  then have r: "returned (redo env c)" and s1: "sections ?c1 = sections a1"
    and hc: "history ?c1 = history c" and kc: "historyAt ?c1 = historyAt a1"
    by (simp_all add: k1)
  have c3: "take (nat (historyAt a1 + int (length rest))) (history ?c1) =
      take (nat (historyAt a1)) (history a1) @ rest"
    unfolding full hc using Cons.prems(6) by (simp add: h1 k1 add.commute add.left_commute)
  have "redos env (length (ops # rest)) c = and_then (redo env c) (redos env (length rest))"
    by simp
  also have "\<dots> = redos env (length rest) ?c1"
    using returned_after [OF r] by (metis and_then.simps(1))
  finally have eq: "redos env (length (ops # rest)) c = redos env (length rest) ?c1" .
  from Cons.IH [OF rest inv1 s1 kc c3] show ?case
    unfolding eq by (simp add: t hc k1)
qed

text \<open>
  C1, as the code has it. The executor never computes an inverse: it runs the undo specs
  it is given. When every transaction of a sequence, submitted in turn, returns and its
  undo specs are true inverses (an undo right after it returns and gives back the
  sections it was applied to), then after the n transactions, n calls of undo() return
  and give back the sections and the cursor of the start, and n calls of redo() then
  return and reproduce the final state: the same sections with their components, the
  same history and the same cursor. For n = 1 this is transaction(T); undo(); redo().
\<close>

theorem undo_then_redo_reproduces:
  assumes "0 \<le> historyAt a" and "historyAt a \<le> int (length (history a))"
    and "inverses_hold env Ts a"
  shows "returned (transactions env Ts a) \<and>
    returned (undos env (length Ts) (after (transactions env Ts a))) \<and>
    sections (after (undos env (length Ts) (after (transactions env Ts a)))) = sections a \<and>
    historyAt (after (undos env (length Ts) (after (transactions env Ts a)))) = historyAt a \<and>
    returned (redos env (length Ts)
      (after (undos env (length Ts) (after (transactions env Ts a))))) \<and>
    sections (after (redos env (length Ts)
      (after (undos env (length Ts) (after (transactions env Ts a)))))) =
      sections (after (transactions env Ts a)) \<and>
    history (after (redos env (length Ts)
      (after (undos env (length Ts) (after (transactions env Ts a)))))) =
      history (after (transactions env Ts a)) \<and>
    historyAt (after (redos env (length Ts)
      (after (undos env (length Ts) (after (transactions env Ts a)))))) =
      historyAt (after (transactions env Ts a))"
proof -
  let ?an = "after (transactions env Ts a)"
  let ?a0 = "after (undos env (length Ts) ?an)"
  let ?bn = "after (redos env (length Ts) ?a0)"
  from transactions_run [OF assms(3,1,2)]
  have t: "returned (transactions env Ts a)"
    and k: "historyAt ?an = historyAt a + int (length Ts)"
    and h: "take (nat (historyAt ?an)) (history ?an) = take (nat (historyAt a)) (history a) @ Ts"
    by blast+
  from undos_run [OF assms(3,1,2) refl k h]
  have u: "returned (undos env (length Ts) ?an)" and us: "sections ?a0 = sections a"
    and uh: "history ?a0 = history ?an" and uk: "historyAt ?a0 = historyAt a"
    by blast+
  have h': "take (nat (historyAt a + int (length Ts))) (history ?a0) =
      take (nat (historyAt a)) (history a) @ Ts"
    using h by (simp add: uh k)
  from redos_run [OF assms(3,1,2) us uk h']
  have "returned (redos env (length Ts) ?a0)" and "sections ?bn = sections ?an"
    and "history ?bn = history ?an" and "historyAt ?bn = historyAt ?an"
    by (simp_all add: uh k)
  with t u us uk show ?thesis
    by blast
qed

theorem undo_then_redo_reproduces_witness:
  "inverses_hold text_env [insert_Hi, insert_Hi] (one_paragraph []) \<and>
   sections (after (transactions text_env [insert_Hi, insert_Hi] (one_paragraph []))) =
     sections (one_paragraph ''HiHi'') \<and>
   sections (after (undos text_env 2
     (after (transactions text_env [insert_Hi, insert_Hi] (one_paragraph []))))) =
     sections (one_paragraph []) \<and>
   sections (after (redos text_env 2 (after (undos text_env 2
     (after (transactions text_env [insert_Hi, insert_Hi] (one_paragraph []))))))) =
     sections (one_paragraph ''HiHi'') \<and>
   historyAt (after (redos text_env 2 (after (undos text_env 2
     (after (transactions text_env [insert_Hi, insert_Hi] (one_paragraph []))))))) = 2"
proof -
  let ?p1 = "(one_paragraph ''Hi'')\<lparr>history := [insert_Hi], historyAt := 1\<rparr>"
  let ?p2 = "(one_paragraph ''HiHi'')\<lparr>history := [insert_Hi, insert_Hi], historyAt := 2\<rparr>"
  have t1: "transaction text_env insert_Hi (one_paragraph []) = Returned ?p1"
    by (simp add: transaction_eq eval_defs insert_Hi_def)
  have u1: "undo text_env ?p1 = Returned ((one_paragraph [])\<lparr>history := [insert_Hi]\<rparr>)"
    by (simp add: undo_eq) (simp add: eval_defs insert_Hi_def)
  have t2: "transaction text_env insert_Hi ?p1 = Returned ?p2"
    by (simp add: transaction_eq) (simp add: eval_defs insert_Hi_def)
  have u2: "undo text_env ?p2 =
      Returned ((one_paragraph ''Hi'')\<lparr>history := [insert_Hi, insert_Hi], historyAt := 1\<rparr>)"
    by (simp add: undo_eq) (simp add: eval_defs insert_Hi_def)
  have s1: "sections ((one_paragraph [])\<lparr>history := [insert_Hi]\<rparr>) = sections (one_paragraph [])"
    and s2: "sections ((one_paragraph ''Hi'')\<lparr>history := [insert_Hi, insert_Hi], historyAt := 1\<rparr>) =
      sections ?p1"
    by simp_all
  have i: "inverses_hold text_env [insert_Hi, insert_Hi] (one_paragraph [])"
    by (simp only: inverses_hold.simps t1 u1 t2 u2 outcome.case s1 s2)
  have r: "0 \<le> historyAt (one_paragraph [])"
    "historyAt (one_paragraph []) \<le> int (length (history (one_paragraph [])))"
    by (simp_all add: one_paragraph_def article_of_def)
  have ts: "transactions text_env [insert_Hi, insert_Hi] (one_paragraph []) = Returned ?p2"
    by (simp only: transactions.simps t1 t2 and_then.simps)
  have n: "length [insert_Hi, insert_Hi] = 2"
    by simp
  note th = undo_then_redo_reproduces [OF r i, unfolded n ts after.simps]
  have a: "sections ?p2 = sections (one_paragraph ''HiHi'')"
    by simp
  have b: "sections (after (undos text_env 2 ?p2)) = sections (one_paragraph [])"
    using th by blast
  have "sections (after (redos text_env 2 (after (undos text_env 2 ?p2)))) = sections ?p2"
    using th by blast
  then have c: "sections (after (redos text_env 2 (after (undos text_env 2 ?p2)))) =
      sections (one_paragraph ''HiHi'')"
    by simp
  have "historyAt (after (redos text_env 2 (after (undos text_env 2 ?p2)))) = historyAt ?p2"
    using th by blast
  then have d: "historyAt (after (redos text_env 2 (after (undos text_env 2 ?p2)))) = 2"
    by simp
  from i a b c d show ?thesis
    unfolding ts after.simps by (intro conjI)
qed

theorem undo_then_redo_counterexample:
  "transaction text_env insert_Hi_no_inverse (one_paragraph []) =
     Returned ((one_paragraph ''Hi'')\<lparr>history := [insert_Hi_no_inverse], historyAt := 1\<rparr>) \<and>
   undo text_env ((one_paragraph ''Hi'')\<lparr>history := [insert_Hi_no_inverse], historyAt := 1\<rparr>) =
     Returned ((one_paragraph ''Hi'')\<lparr>history := [insert_Hi_no_inverse], historyAt := 0\<rparr>) \<and>
   redo text_env ((one_paragraph ''Hi'')\<lparr>history := [insert_Hi_no_inverse], historyAt := 0\<rparr>) =
     Returned ((one_paragraph ''HiHi'')\<lparr>history := [insert_Hi_no_inverse], historyAt := 1\<rparr>) \<and>
   sections (one_paragraph ''HiHi'') \<noteq> sections (one_paragraph ''Hi'')"
proof -
  have "transaction text_env insert_Hi_no_inverse (one_paragraph []) =
     Returned ((one_paragraph ''Hi'')\<lparr>history := [insert_Hi_no_inverse], historyAt := 1\<rparr>)"
    by (simp add: transaction_eq eval_defs insert_Hi_no_inverse_def)
  moreover have "undo text_env
       ((one_paragraph ''Hi'')\<lparr>history := [insert_Hi_no_inverse], historyAt := 1\<rparr>) =
     Returned ((one_paragraph ''Hi'')\<lparr>history := [insert_Hi_no_inverse], historyAt := 0\<rparr>)"
    by (simp add: undo_eq) (simp add: eval_defs insert_Hi_no_inverse_def)
  moreover have "redo text_env
       ((one_paragraph ''Hi'')\<lparr>history := [insert_Hi_no_inverse], historyAt := 0\<rparr>) =
     Returned ((one_paragraph ''HiHi'')\<lparr>history := [insert_Hi_no_inverse], historyAt := 1\<rparr>)"
    by (simp add: redo_eq) (simp add: eval_defs insert_Hi_no_inverse_def)
  moreover have "sections (one_paragraph ''HiHi'') \<noteq> sections (one_paragraph ''Hi'')"
    by (simp add: one_paragraph_def article_of_def section_of_def paragraph_of_def)
  ultimately show ?thesis by blast
qed

section \<open>What lies below the cursor\<close>

lemma transactions_append:
  "transactions env (xs @ ys) a = and_then (transactions env xs a) (transactions env ys)"
proof (induction xs arbitrary: a)
  case Nil
  show ?case by simp
next
  case (Cons x xs)
  show ?case
    by (cases "transaction env x a") (simp_all add: Cons.IH)
qed

lemma inverses_hold_append:
  "inverses_hold env (xs @ ys) a \<longleftrightarrow>
   inverses_hold env xs a \<and> inverses_hold env ys (after (transactions env xs a))"
proof (induction xs arbitrary: a)
  case Nil
  show ?case by simp
next
  case (Cons x xs)
  show ?case
  proof (cases "transaction env x a")
    case (Returned a1)
    show ?thesis
    proof (cases "undo env a1")
      case (Returned a')
      with \<open>transaction env x a = Returned a1\<close> Cons.IH [of a1] show ?thesis
        by auto
    next
      case (Threw e a')
      with \<open>transaction env x a = Returned a1\<close> show ?thesis
        by simp
    qed
  next
    case (Threw e a')
    then show ?thesis by simp
  qed
qed

text \<open>
  Replaying transactions with true inverses from an article with an empty history: the
  run returns, the cursor is their number and they are the history below it.
\<close>

lemma replay_state:
  assumes "history a0 = []" and "historyAt a0 = 0" and "inverses_hold env Ts a0"
  shows "returned (transactions env Ts a0)"
    and "historyAt (after (transactions env Ts a0)) = int (length Ts)"
    and "take (length Ts) (history (after (transactions env Ts a0))) = Ts"
    and "length Ts \<le> length (history (after (transactions env Ts a0)))"
proof -
  have r: "0 \<le> historyAt a0" "historyAt a0 \<le> int (length (history a0))"
    using assms(1,2) by simp_all
  from transactions_run [OF assms(3) r]
  have a: "returned (transactions env Ts a0)"
    and b: "historyAt (after (transactions env Ts a0)) = historyAt a0 + int (length Ts)"
    and c: "take (nat (historyAt (after (transactions env Ts a0))))
        (history (after (transactions env Ts a0))) = take (nat (historyAt a0)) (history a0) @ Ts"
    by blast+
  show "returned (transactions env Ts a0)" by (rule a)
  show k: "historyAt (after (transactions env Ts a0)) = int (length Ts)"
    using b assms(2) by simp
  show t: "take (length Ts) (history (after (transactions env Ts a0))) = Ts"
    using c assms(1) by (simp add: k)
  have "length (take (length Ts) (history (after (transactions env Ts a0)))) = length Ts"
    by (simp only: t)
  then show "length Ts \<le> length (history (after (transactions env Ts a0)))"
    by simp
qed

lemma transactions_snoc:
  assumes "returned (transactions env Ts a0)"
  shows "transactions env (Ts @ [ops]) a0 = transaction env ops (after (transactions env Ts a0))"
proof -
  have "transactions env [] = Returned"
    by (rule ext) simp
  then have "transactions env [ops] = transaction env ops"
    by (intro ext) simp
  then show ?thesis
    using returned_after [OF assms]
    by (metis transactions_append and_then.simps(1))
qed

text \<open>
  A transaction submitted in a state with the sections and the cursor of a state where it
  returns: it returns too, with the same sections.
\<close>

lemma transaction_similar:
  assumes "transaction env ops a = Returned a1"
    and "0 \<le> historyAt a" and "historyAt a \<le> int (length (history a))"
    and "sections p = sections a" and "historyAt p = historyAt a"
    and "historyAt p \<le> int (length (history p))"
  shows "returned (transaction env ops p) \<and>
    sections (after (transaction env ops p)) = sections a1"
proof -
  have ta: "transaction env ops a = exec_all env Do ops
      (a\<lparr>history := take (nat (historyAt a)) (history a) @ [ops], historyAt := historyAt a + 1\<rparr>)"
    using assms(2,3) by (rule transaction_eq)
  have tp: "transaction env ops p = exec_all env Do ops
      (p\<lparr>history := take (nat (historyAt p)) (history p) @ [ops], historyAt := historyAt p + 1\<rparr>)"
    using assms(2,5,6) transaction_eq [of p env ops] by simp
  have "same_outcome
      (exec_all env Do ops
        (a\<lparr>history := take (nat (historyAt a)) (history a) @ [ops], historyAt := historyAt a + 1\<rparr>))
      (exec_all env Do ops
        (p\<lparr>history := take (nat (historyAt p)) (history p) @ [ops], historyAt := historyAt p + 1\<rparr>))"
    by (rule exec_all_same) (simp add: assms(4))
  then have "same_outcome (Returned a1) (transaction env ops p)"
    using ta tp assms(1) by simp
  then show ?thesis
    by (rule same_outcome_Returned)
qed

text \<open>
  The invariant of a sound run from an article with an empty history: the cursor is in
  range, every entry of the history has true inverses along the replay from the start,
  and the sections are those the replay of the entries below the cursor leads to.
\<close>

lemma sound_run_invariant:
  assumes "history a0 = []" and "historyAt a0 = 0" and "sound_run env a0 a"
  shows "0 \<le> historyAt a \<and> historyAt a \<le> int (length (history a)) \<and>
    inverses_hold env (history a) a0 \<and>
    sections (after (transactions env (take (nat (historyAt a)) (history a)) a0)) = sections a"
  using assms(3)
proof (induction rule: sound_run.induct)
  case start
  show ?case by (simp add: assms(1,2))
next
  case (sound_transaction a ops a1 a')
  let ?k = "nat (historyAt a)"
  let ?pre = "take ?k (history a)"
  let ?p = "after (transactions env ?pre a0)"
  from sound_transaction.IH have lo: "0 \<le> historyAt a"
    and hi: "historyAt a \<le> int (length (history a))"
    and ih: "inverses_hold env (history a) a0" and sp: "sections ?p = sections a"
    by blast+
  have len: "length ?pre = ?k"
    using lo hi by simp
  have "inverses_hold env (?pre @ drop ?k (history a)) a0"
    using ih by simp
  then have ipre: "inverses_hold env ?pre a0"
    by (simp only: inverses_hold_append)
  note rp = replay_state [OF assms(1,2) ipre]
  have kp: "historyAt ?p = historyAt a"
    using rp(2) lo hi by simp
  have hp: "historyAt ?p \<le> int (length (history ?p))"
    using rp(2,4) by simp
  have tp: "take ?k (history ?p) = ?pre"
    using rp(3) unfolding len .
  from transaction_similar [OF sound_transaction.hyps(2) lo hi sp kp hp]
  obtain p1 where t1: "transaction env ops ?p = Returned p1" and s1: "sections p1 = sections a1"
    by (cases "transaction env ops ?p") simp_all
  have h1: "history a1 = ?pre @ [ops]" and k1: "historyAt a1 = historyAt a + 1"
    using transaction_history [OF lo hi, of env ops] sound_transaction.hyps(2) by simp_all
  have "0 \<le> historyAt ?p"
    using lo by (simp only: kp)
  from transaction_history [OF this hp, of env ops]
  have hp1: "history p1 = ?pre @ [ops]" and kp1: "historyAt p1 = historyAt a + 1"
    by (simp_all only: t1 after.simps kp tp)
  have "returned (undo env p1) \<and> sections (after (undo env p1)) = sections a' \<and>
    history (after (undo env p1)) = history p1 \<and>
    historyAt (after (undo env p1)) = historyAt a1 - 1"
  proof (rule undo_similar [OF sound_transaction.hyps(3)])
    show "0 < historyAt a1" using lo by (simp add: k1)
    show "historyAt a1 \<le> int (length (history a1))" using lo hi by (simp add: h1 k1)
    show "sections p1 = sections a1" by (rule s1)
    show "historyAt p1 = historyAt a1" by (simp add: k1 kp1)
    show "historyAt p1 \<le> int (length (history p1))" using lo hi by (simp add: hp1 kp1)
    show "history p1 ! nat (historyAt a1 - 1) = history a1 ! nat (historyAt a1 - 1)"
      by (simp only: h1 hp1)
  qed
  then obtain pu where u1: "undo env p1 = Returned pu" and su: "sections pu = sections ?p"
    by (cases "undo env p1") (simp_all add: sound_transaction.hyps(4) sp)
  have "inverses_hold env [ops] ?p"
    by (simp only: inverses_hold.simps t1 u1 su outcome.case)
  with ipre have inew: "inverses_hold env (?pre @ [ops]) a0"
    by (simp only: inverses_hold_append)
  have tk: "take (nat (historyAt a1)) (history a1) = ?pre @ [ops]"
    using lo hi by (simp add: h1 k1)
  have "transactions env (?pre @ [ops]) a0 = transaction env ops ?p"
    using rp(1) by (rule transactions_snoc)
  then have "sections (after (transactions env (take (nat (historyAt a1)) (history a1)) a0)) =
      sections a1"
    by (simp only: tk t1 after.simps s1)
  moreover have "0 \<le> historyAt a1" "historyAt a1 \<le> int (length (history a1))"
    using lo hi by (simp_all add: h1 k1)
  moreover have "inverses_hold env (history a1) a0"
    using inew by (simp only: h1)
  ultimately show ?case
    by blast
next
  case (sound_undo a)
  from sound_undo.IH have lo: "0 \<le> historyAt a"
    and hi: "historyAt a \<le> int (length (history a))"
    and ih: "inverses_hold env (history a) a0"
    and sp: "sections (after (transactions env (take (nat (historyAt a)) (history a)) a0)) = sections a"
    by blast+
  show ?case
  proof (cases "0 < historyAt a")
    case False
    with lo have "undo env a = Returned a" by (simp add: undo_def)
    with sound_undo.IH show ?thesis by simp
  next
    case True
    let ?j = "nat (historyAt a - 1)"
    let ?pre = "take ?j (history a)"
    let ?ops = "history a ! ?j"
    let ?q = "after (transactions env ?pre a0)"
    have j: "?j < length (history a)" and sj: "Suc ?j = nat (historyAt a)"
      using True hi by simp_all
    have len: "length ?pre = ?j"
      using j by simp
    have tk: "take (nat (historyAt a)) (history a) = ?pre @ [?ops]"
      using j by (simp add: sj [symmetric] take_Suc_conv_app_nth)
    have "inverses_hold env ((?pre @ [?ops]) @ drop (nat (historyAt a)) (history a)) a0"
      using ih by (simp only: tk [symmetric] append_take_drop_id)
    then have ipre: "inverses_hold env ?pre a0" and iops: "inverses_hold env [?ops] ?q"
      by (simp_all only: inverses_hold_append)
    note rq = replay_state [OF assms(1,2) ipre]
    have kq: "historyAt ?q = int ?j"
      using rq(2) j by simp
    have hq: "historyAt ?q \<le> int (length (history ?q))"
      using rq(2,4) by simp
    have tq: "take ?j (history ?q) = ?pre"
      using rq(3) unfolding len .
    from iops obtain p q' where t: "transaction env ?ops ?q = Returned p"
      and u: "undo env p = Returned q'" and sq: "sections q' = sections ?q"
      by (rule inverses_hold_ConsE)
    have "0 \<le> historyAt ?q"
      by (simp add: kq)
    from transaction_history [OF this hq, of env ?ops]
    have hp: "history p = ?pre @ [?ops]" and "historyAt p = int ?j + 1"
      by (simp_all only: t after.simps kq nat_int tq)
    then have kp: "historyAt p = historyAt a"
      using True by simp
    have "transactions env (?pre @ [?ops]) a0 = transaction env ?ops ?q"
      using rq(1) by (rule transactions_snoc)
    then have spa: "sections a = sections p"
      using sp by (simp add: tk t)
    have "returned (undo env a) \<and> sections (after (undo env a)) = sections q' \<and>
      history (after (undo env a)) = history a \<and>
      historyAt (after (undo env a)) = historyAt p - 1"
    proof (rule undo_similar [OF u])
      show "0 < historyAt p" using True by (simp add: kp)
      show "historyAt p \<le> int (length (history p))" using True hi by (simp add: hp kp)
      show "sections a = sections p" by (rule spa)
      show "historyAt a = historyAt p" by (simp add: kp)
      show "historyAt a \<le> int (length (history a))" by (rule hi)
      have "(?pre @ [?ops]) ! length ?pre = ?ops"
        by (rule nth_append_length)
      then show "history a ! nat (historyAt p - 1) = history p ! nat (historyAt p - 1)"
        by (simp only: hp kp len)
    qed
    then have "sections (after (undo env a)) = sections ?q"
      and "history (after (undo env a)) = history a"
      and "historyAt (after (undo env a)) = historyAt a - 1"
      by (simp_all add: sq kp)
    then show ?thesis
      using True hi ih by simp
  qed
next
  case (sound_redo a)
  from sound_redo.IH have lo: "0 \<le> historyAt a"
    and hi: "historyAt a \<le> int (length (history a))"
    and ih: "inverses_hold env (history a) a0"
    and sp: "sections (after (transactions env (take (nat (historyAt a)) (history a)) a0)) = sections a"
    by blast+
  show ?case
  proof (cases "historyAt a < int (length (history a))")
    case False
    then have "redo env a = Returned a" by (simp add: redo_def)
    with sound_redo.IH show ?thesis by simp
  next
    case True
    let ?k = "nat (historyAt a)"
    let ?pre = "take ?k (history a)"
    let ?ops = "history a ! ?k"
    let ?p = "after (transactions env ?pre a0)"
    have k: "?k < length (history a)"
      using True lo by simp
    have len: "length ?pre = ?k"
      using k by simp
    have tk: "take (Suc ?k) (history a) = ?pre @ [?ops]"
      using k by (simp add: take_Suc_conv_app_nth)
    have "inverses_hold env ((?pre @ [?ops]) @ drop (Suc ?k) (history a)) a0"
      using ih by (simp only: tk [symmetric] append_take_drop_id)
    then have ipre: "inverses_hold env ?pre a0" and iops: "inverses_hold env [?ops] ?p"
      by (simp_all only: inverses_hold_append)
    note rp = replay_state [OF assms(1,2) ipre]
    have kp: "historyAt ?p = historyAt a"
      using rp(2) lo k by simp
    have hp: "historyAt ?p \<le> int (length (history ?p))"
      using rp(2,4) by simp
    from iops obtain p1 p' where t: "transaction env ?ops ?p = Returned p1"
      and u: "undo env p1 = Returned p'"
      by (rule inverses_hold_ConsE)
    have "returned (redo env a) \<and> sections (after (redo env a)) = sections p1 \<and>
      history (after (redo env a)) = history a \<and>
      historyAt (after (redo env a)) = historyAt ?p + 1"
    proof (rule redo_similar [OF t])
      show "0 \<le> historyAt ?p" using lo by (simp add: kp)
      show "historyAt ?p \<le> int (length (history ?p))" by (rule hp)
      show "sections a = sections ?p" by (simp add: sp)
      show "historyAt a = historyAt ?p" by (simp add: kp)
      show "historyAt a < int (length (history a))" by (rule True)
      show "history a ! nat (historyAt a) = ?ops" by simp
    qed
    then have s1: "sections (after (redo env a)) = sections p1"
      and h1: "history (after (redo env a)) = history a"
      and k1: "historyAt (after (redo env a)) = historyAt a + 1"
      by (simp_all add: kp)
    have "transactions env (?pre @ [?ops]) a0 = transaction env ?ops ?p"
      using rp(1) by (rule transactions_snoc)
    moreover have "nat (historyAt a + 1) = Suc ?k"
      using lo by simp
    ultimately have "sections (after (transactions env
        (take (nat (historyAt (after (redo env a)))) (history (after (redo env a)))) a0)) =
        sections (after (redo env a))"
      by (simp add: s1 h1 k1 tk t)
    then show ?thesis
      using True lo ih by (simp add: h1 k1)
  qed
qed

lemma sound_run_reachable:
  assumes "reachable env a0" and "sound_run env a0 a"
  shows "reachable env a"
  using assms(2)
proof (induction rule: sound_run.induct)
  case start
  show ?case by (rule assms(1))
next
  case (sound_transaction a ops a1 a')
  have "reachable env (after (transaction env ops a))"
    using sound_transaction.IH by (rule reachable.by_transaction)
  then show ?case
    by (simp add: sound_transaction.hyps(2))
next
  case (sound_undo a)
  then show ?case by (simp add: reachable.by_undo)
next
  case (sound_redo a)
  then show ?case by (simp add: reachable.by_redo)
qed

text \<open>
  C9, as the code has it. In every state reached from a freshly constructed article by
  calls of transaction(), undo() and redo(), returning or throwing, 0 <= historyAt <=
  history.length; undo() runs the undo specs of the entry just below the cursor and
  redo() runs the do specs of the entry at the cursor. The entries below the cursor are
  the applied ones when every transaction submitted returned and carried true inverses:
  then the sections are those that submitting exactly the entries below the cursor, in
  order, to the fresh article leads to, every entry of the history replays from the fresh
  article, an undo() leads to the sections of one entry less and a redo() to the sections
  of one entry more.
\<close>

theorem cursor_in_range_and_sound_partition:
  "(reachable env a \<longrightarrow>
      0 \<le> historyAt a \<and> historyAt a \<le> int (length (history a)) \<and>
      (0 < historyAt a \<longrightarrow>
         undo env a =
           exec_all env Undo (rev (history a ! nat (historyAt a - 1)))
             (a\<lparr>historyAt := historyAt a - 1\<rparr>)) \<and>
      (historyAt a < int (length (history a)) \<longrightarrow>
         redo env a =
           exec_all env Do (history a ! nat (historyAt a)) (a\<lparr>historyAt := historyAt a + 1\<rparr>))) \<and>
   (Article env params_sections sel = Inr a0 \<and> sound_run env a0 b \<longrightarrow>
      reachable env b \<and>
      inverses_hold env (history b) a0 \<and>
      returned (transactions env (take (nat (historyAt b)) (history b)) a0) \<and>
      sections (after (transactions env (take (nat (historyAt b)) (history b)) a0)) = sections b \<and>
      (0 < historyAt b \<longrightarrow>
         sections (after (undo env b)) =
           sections (after (transactions env (take (nat (historyAt b - 1)) (history b)) a0))) \<and>
      (historyAt b < int (length (history b)) \<longrightarrow>
         sections (after (redo env b)) =
           sections (after (transactions env (take (nat (historyAt b + 1)) (history b)) a0))))"
proof (intro conjI impI)
  assume r: "reachable env a"
  then show lo: "0 \<le> historyAt a" and hi: "historyAt a \<le> int (length (history a))"
    using reachable_cursor by blast+
  show "undo env a =
      exec_all env Undo (rev (history a ! nat (historyAt a - 1))) (a\<lparr>historyAt := historyAt a - 1\<rparr>)"
    if "0 < historyAt a"
    using that hi by (rule undo_eq)
  show "redo env a =
      exec_all env Do (history a ! nat (historyAt a)) (a\<lparr>historyAt := historyAt a + 1\<rparr>)"
    if "historyAt a < int (length (history a))"
    using lo that by (rule redo_eq)
next
  assume s: "Article env params_sections sel = Inr a0 \<and> sound_run env a0 b"
  then have f: "history a0 = []" "historyAt a0 = 0"
    using Article_fresh by blast+
  from s have r0: "reachable env a0"
    using reachable.fresh by blast
  from s have sr: "sound_run env a0 b"
    by blast
  note inv = sound_run_invariant [OF f]
  from inv [OF sr] have lo: "0 \<le> historyAt b" and hi: "historyAt b \<le> int (length (history b))"
    and ih: "inverses_hold env (history b) a0"
    and sb: "sections (after (transactions env (take (nat (historyAt b)) (history b)) a0)) = sections b"
    by blast+
  show "reachable env b"
    using r0 sr by (rule sound_run_reachable)
  show "inverses_hold env (history b) a0"
    by (rule ih)
  have "inverses_hold env (take (nat (historyAt b)) (history b) @ drop (nat (historyAt b)) (history b)) a0"
    using ih by simp
  then have "inverses_hold env (take (nat (historyAt b)) (history b)) a0"
    by (simp only: inverses_hold_append)
  then show "returned (transactions env (take (nat (historyAt b)) (history b)) a0)"
    by (rule replay_state(1) [OF f])
  show "sections (after (transactions env (take (nat (historyAt b)) (history b)) a0)) = sections b"
    by (rule sb)
  show "sections (after (undo env b)) =
      sections (after (transactions env (take (nat (historyAt b - 1)) (history b)) a0))"
    if "0 < historyAt b"
  proof -
    have "sound_run env a0 (after (undo env b))"
      using sr by (rule sound_run.sound_undo)
    from inv [OF this] show ?thesis
      using that undo_cursor [OF lo hi, of env] by simp
  qed
  show "sections (after (redo env b)) =
      sections (after (transactions env (take (nat (historyAt b + 1)) (history b)) a0))"
    if "historyAt b < int (length (history b))"
  proof -
    have "sound_run env a0 (after (redo env b))"
      using sr by (rule sound_run.sound_redo)
    from inv [OF this] show ?thesis
      using that redo_cursor [OF lo hi, of env] by simp
  qed
qed

theorem cursor_in_range_and_sound_partition_witness:
  "Article text_env [section_of 1 ''s1'' [paragraph_of ''c1'' []]] [] = Inr (one_paragraph []) \<and>
   sound_run text_env (one_paragraph [])
     ((one_paragraph ''Hi'')\<lparr>history := [insert_Hi, insert_Hi], historyAt := 1\<rparr>) \<and>
   reachable text_env
     ((one_paragraph ''Hi'')\<lparr>history := [insert_Hi, insert_Hi], historyAt := 1\<rparr>) \<and>
   sections (after (transactions text_env [insert_Hi] (one_paragraph []))) =
     sections (one_paragraph ''Hi'') \<and>
   sections (after (redo text_env
     ((one_paragraph ''Hi'')\<lparr>history := [insert_Hi, insert_Hi], historyAt := 1\<rparr>))) =
     sections (after (transactions text_env [insert_Hi, insert_Hi] (one_paragraph [])))"
proof -
  let ?p1 = "(one_paragraph ''Hi'')\<lparr>history := [insert_Hi], historyAt := 1\<rparr>"
  let ?p2 = "(one_paragraph ''HiHi'')\<lparr>history := [insert_Hi, insert_Hi], historyAt := 2\<rparr>"
  let ?b = "(one_paragraph ''Hi'')\<lparr>history := [insert_Hi, insert_Hi], historyAt := 1\<rparr>"
  have fresh: "Article text_env [section_of 1 ''s1'' [paragraph_of ''c1'' []]] [] =
      Inr (one_paragraph [])"
    by (simp add: Article_def insertSection_def one_paragraph_def article_of_def section_of_def)
  have t1: "transaction text_env insert_Hi (one_paragraph []) = Returned ?p1"
    by (simp add: transaction_eq eval_defs insert_Hi_def)
  have u1: "undo text_env ?p1 = Returned ((one_paragraph [])\<lparr>history := [insert_Hi]\<rparr>)"
    by (simp add: undo_eq) (simp add: eval_defs insert_Hi_def)
  have t2: "transaction text_env insert_Hi ?p1 = Returned ?p2"
    by (simp add: transaction_eq) (simp add: eval_defs insert_Hi_def)
  have u2: "undo text_env ?p2 = Returned ?b"
    by (simp add: undo_eq) (simp add: eval_defs insert_Hi_def)
  have s1: "sound_run text_env (one_paragraph []) ?p1"
    by (rule sound_run.sound_transaction [OF sound_run.start t1 u1]) simp
  have s2: "sound_run text_env (one_paragraph []) ?p2"
    by (rule sound_run.sound_transaction [OF s1 t2 u2]) simp
  have sb: "sound_run text_env (one_paragraph []) ?b"
    using sound_run.sound_undo [OF s2] by (simp only: u2 after.simps)
  note th = cursor_in_range_and_sound_partition
    [of text_env ?b "[section_of 1 ''s1'' [paragraph_of ''c1'' []]]" "[]" "one_paragraph []" ?b,
      THEN conjunct2, rule_format, OF conjI [OF fresh sb]]
  have k: "nat (historyAt ?b) = 1" "nat (historyAt ?b + 1) = 2" "history ?b = [insert_Hi, insert_Hi]"
    "historyAt ?b < int (length (history ?b))"
    by simp_all
  have r: "reachable text_env ?b"
    using th by blast
  have "sections (after (transactions text_env (take (nat (historyAt ?b)) (history ?b))
      (one_paragraph []))) = sections ?b"
    using th by blast
  then have a: "sections (after (transactions text_env [insert_Hi] (one_paragraph []))) =
      sections (one_paragraph ''Hi'')"
    by (simp only: k) simp
  have "sections (after (redo text_env ?b)) =
      sections (after (transactions text_env (take (nat (historyAt ?b + 1)) (history ?b))
        (one_paragraph [])))"
    using th k(4) by blast
  then have c: "sections (after (redo text_env ?b)) =
      sections (after (transactions text_env [insert_Hi, insert_Hi] (one_paragraph [])))"
    by (simp only: k) simp
  from fresh sb r a c show ?thesis
    by (intro conjI)
qed

theorem cursor_partition_counterexample:
  "Article text_env [section_of 1 ''s1'' [paragraph_of ''c1'' []]] [] = Inr (one_paragraph []) \<and>
   reachable text_env ((one_paragraph [])\<lparr>history := [missing_insert], historyAt := 1\<rparr>) \<and>
   transaction text_env missing_insert (one_paragraph []) =
     Threw TypeError ((one_paragraph [])\<lparr>history := [missing_insert], historyAt := 1\<rparr>) \<and>
   \<not> returned (transactions text_env [missing_insert] (one_paragraph [])) \<and>
   reachable text_env ((one_paragraph ''Hi'')\<lparr>history := [insert_Hi_no_inverse], historyAt := 0\<rparr>) \<and>
   sections ((one_paragraph ''Hi'')\<lparr>history := [insert_Hi_no_inverse], historyAt := 0\<rparr>) \<noteq>
     sections (after (transactions text_env [] (one_paragraph [])))"
proof -
  have fresh: "Article text_env [section_of 1 ''s1'' [paragraph_of ''c1'' []]] [] =
      Inr (one_paragraph [])"
    by (simp add: Article_def insertSection_def one_paragraph_def article_of_def section_of_def)
  then have r0: "reachable text_env (one_paragraph [])"
    by (rule reachable.fresh)
  have t: "transaction text_env missing_insert (one_paragraph []) =
      Threw TypeError ((one_paragraph [])\<lparr>history := [missing_insert], historyAt := 1\<rparr>)"
    by (simp add: transaction_eq eval_defs missing_insert_def)
  have r1: "reachable text_env ((one_paragraph [])\<lparr>history := [missing_insert], historyAt := 1\<rparr>)"
    using reachable.by_transaction [OF r0, of missing_insert] by (simp only: t after.simps)
  have n: "\<not> returned (transactions text_env [missing_insert] (one_paragraph []))"
    by (simp only: transactions.simps t and_then.simps returned.simps) simp
  have t': "transaction text_env insert_Hi_no_inverse (one_paragraph []) =
      Returned ((one_paragraph ''Hi'')\<lparr>history := [insert_Hi_no_inverse], historyAt := 1\<rparr>)"
    by (simp add: transaction_eq eval_defs insert_Hi_no_inverse_def)
  have u': "undo text_env
       ((one_paragraph ''Hi'')\<lparr>history := [insert_Hi_no_inverse], historyAt := 1\<rparr>) =
     Returned ((one_paragraph ''Hi'')\<lparr>history := [insert_Hi_no_inverse], historyAt := 0\<rparr>)"
    by (simp add: undo_eq) (simp add: eval_defs insert_Hi_no_inverse_def)
  have "reachable text_env (after (undo text_env
      (after (transaction text_env insert_Hi_no_inverse (one_paragraph [])))))"
    using r0 by (intro reachable.by_undo reachable.by_transaction)
  then have r2: "reachable text_env
      ((one_paragraph ''Hi'')\<lparr>history := [insert_Hi_no_inverse], historyAt := 0\<rparr>)"
    by (simp only: t' u' after.simps)
  have d: "sections ((one_paragraph ''Hi'')\<lparr>history := [insert_Hi_no_inverse], historyAt := 0\<rparr>) \<noteq>
      sections (after (transactions text_env [] (one_paragraph [])))"
    by (simp add: one_paragraph_def article_of_def section_of_def paragraph_of_def)
  from fresh r1 t n r2 d show ?thesis
    by (intro conjI)
qed

end
